theory Spec2Isabelle
  imports Complex_Main
begin

section \<open>The quasi-Newton helpers of the partitioned FSI driver\<close>

text \<open>
  A shallow embedding of the free functions and of the class \<open>Matrix\<close> of
  \<^verbatim>\<open>include/exadg/fluid_structure_interaction/driver.h\<close>.

  \<^item> \<open>Number\<close> is \<open>double\<close> in the driver. A value of the type \<open>number\<close> is a finite
    real, an infinity or a NaN. The operations on \<open>number\<close> (suffix \<open>_fp\<close>) take the
    rounding function as a parameter: \<open>round_double\<close> is the rounding of IEEE binary64,
    \<open>exact\<close> does not round. A division by zero gives an infinity or a NaN and the run goes
    on, as in the code. A statement for every rounding function holds of the code as it
    runs; a statement for \<open>exact\<close> is a statement in exact arithmetic.
  \<^item> \<open>compute_QR_decomposition\<close> is given on \<open>number\<close>. The back-substitution routines
    and \<open>inv_jacobian_times_residual\<close> are given on \<open>real\<close>, that is, in exact arithmetic,
    where a division by zero has no value and is the outcome \<open>NonFinite\<close>; the
    back-substitution routines are given on \<open>number\<close> as well (suffix \<open>_fp\<close>).
  \<^item> \<open>unsigned int\<close> is 32 bits wide. The index arithmetic of \<open>Matrix\<close> is written
    with its wrap-around (\<open>mod 2 ^ 32\<close>).
  \<^item> An access outside the storage of a \<open>std::vector\<close> is undefined behaviour in C++;
    it is the outcome \<open>OutOfBounds\<close>. \<open>AssertThrow\<close> throws in every build type; it is
    the outcome \<open>IndexError\<close>.
  \<^item> The lengths of the \<open>std::vector\<close>s are natural numbers; the conversions of
    \<open>size()\<close> to \<open>int\<close> in the source are exact below \<open>2 ^ 31\<close> elements.
  \<^item> A loop of the source is the run of its body over the list of its indices.
\<close>

datatype error = IndexError | OutOfBounds | NonFinite

subsection \<open>Running a loop body over its index range\<close>

text \<open>
  \<open>foldE body is s\<close> runs \<open>body\<close> for the indices \<open>is\<close> in order, threading the state,
  and stops at the first error: \<^verbatim>\<open>for(i = 0; i < n; ++i)\<close> is \<open>foldE body [0..<n]\<close> and
  \<^verbatim>\<open>for(i = n - 1; i >= 0; --i)\<close> is \<open>foldE body (rev [0..<n])\<close>.
\<close>

fun foldE :: "('i \<Rightarrow> 's \<Rightarrow> error + 's) \<Rightarrow> 'i list \<Rightarrow> 's \<Rightarrow> error + 's" where
  "foldE body [] s = Inr s"
| "foldE body (i # is) s =
     (case body i s of Inl e \<Rightarrow> Inl e | Inr s' \<Rightarrow> foldE body is s')"

subsection \<open>\<open>std::vector\<close> element access\<close>

definition read_at :: "'a list \<Rightarrow> nat \<Rightarrow> error + 'a" where
  "read_at xs i = (if i < length xs then Inr (xs ! i) else Inl OutOfBounds)"

definition write_at :: "'a list \<Rightarrow> nat \<Rightarrow> 'a \<Rightarrow> error + 'a list" where
  "write_at xs i v = (if i < length xs then Inr (xs[i := v]) else Inl OutOfBounds)"

subsection \<open>Floating-point numbers\<close>

text \<open>
  The values of a \<open>double\<close>. The two zeros of IEEE arithmetic are one value, \<open>Fin 0\<close>,
  which behaves as \<open>+0\<close>; the zero divisors in \<open>compute_QR_decomposition\<close> are norms, which
  are never \<open>-0\<close>.
\<close>

datatype number = Fin real | PInf | MInf | NaN

instantiation number :: zero
begin

definition zero_number :: number where
  "zero_number = Fin 0"

instance ..

end

text \<open>
  A rounding function maps the exact result of an operation on finite operands to the
  value that is stored.
\<close>

type_synonym rounding = "real \<Rightarrow> number"

definition exact :: rounding where
  "exact x = Fin x"

text \<open>The integer nearest to \<open>x\<close>, the even one of the two at a tie.\<close>

definition round_to_even :: "real \<Rightarrow> int" where
  "round_to_even x =
     (let f = \<lfloor>x\<rfloor>; r = x - of_int f
      in if r < 1 / 2 then f else if 1 / 2 < r then f + 1 else if even f then f else f + 1)"

text \<open>
  The binary exponent of a magnitude \<open>a\<close> in binary64: the largest \<open>e\<close> with
  \<open>2 ^ e \<le> a\<close>, found by bisection from the least exponent of a normal number, \<open>- 1022\<close>,
  which is also the exponent of the subnormal numbers and of zero.
\<close>

definition exponent_double :: "real \<Rightarrow> int" where
  "exponent_double a =
     fold (\<lambda>step e. if 2 powi (e + step) \<le> a then e + step else e)
       [1024, 512, 256, 128, 64, 32, 16, 8, 4, 2, 1] (- 1022)"

text \<open>
  Round to nearest, ties to even, in binary64: the significand has 53 bits, so the
  neighbours of \<open>x\<close> are the multiples of \<open>2 ^ (e - 52)\<close>; a result of magnitude
  \<open>2 ^ 1024\<close> or more is an infinity.
\<close>

definition round_double :: rounding where
  "round_double x =
     (let e = exponent_double \<bar>x\<bar>;
          ulp = 2 powi (e - 52);
          y = of_int (round_to_even (x / ulp)) * ulp
      in if 2 powi 1024 \<le> \<bar>y\<bar> then (if 0 < x then PInf else MInf) else Fin y)"

text \<open>
  The operations of IEEE arithmetic. On finite operands the exact result is rounded; the
  other cases are those of the standard.
\<close>

fun uminus_fp :: "number \<Rightarrow> number" where
  "uminus_fp (Fin a) = Fin (- a)"
| "uminus_fp PInf = MInf"
| "uminus_fp MInf = PInf"
| "uminus_fp NaN = NaN"

fun plus_fp :: "rounding \<Rightarrow> number \<Rightarrow> number \<Rightarrow> number" where
  "plus_fp rnd (Fin a) (Fin b) = rnd (a + b)"
| "plus_fp rnd NaN y = NaN"
| "plus_fp rnd x NaN = NaN"
| "plus_fp rnd PInf MInf = NaN"
| "plus_fp rnd MInf PInf = NaN"
| "plus_fp rnd PInf y = PInf"
| "plus_fp rnd x PInf = PInf"
| "plus_fp rnd MInf y = MInf"
| "plus_fp rnd x MInf = MInf"

definition minus_fp :: "rounding \<Rightarrow> number \<Rightarrow> number \<Rightarrow> number" where
  "minus_fp rnd x y = plus_fp rnd x (uminus_fp y)"

fun times_fp :: "rounding \<Rightarrow> number \<Rightarrow> number \<Rightarrow> number" where
  "times_fp rnd (Fin a) (Fin b) = rnd (a * b)"
| "times_fp rnd NaN y = NaN"
| "times_fp rnd x NaN = NaN"
| "times_fp rnd (Fin a) PInf = (if a = 0 then NaN else if 0 < a then PInf else MInf)"
| "times_fp rnd (Fin a) MInf = (if a = 0 then NaN else if 0 < a then MInf else PInf)"
| "times_fp rnd PInf (Fin b) = (if b = 0 then NaN else if 0 < b then PInf else MInf)"
| "times_fp rnd MInf (Fin b) = (if b = 0 then NaN else if 0 < b then MInf else PInf)"
| "times_fp rnd PInf PInf = PInf"
| "times_fp rnd PInf MInf = MInf"
| "times_fp rnd MInf PInf = MInf"
| "times_fp rnd MInf MInf = PInf"

fun divide_fp :: "rounding \<Rightarrow> number \<Rightarrow> number \<Rightarrow> number" where
  "divide_fp rnd (Fin a) (Fin b) =
     (if b = 0 then (if a = 0 then NaN else if 0 < a then PInf else MInf) else rnd (a / b))"
| "divide_fp rnd NaN y = NaN"
| "divide_fp rnd x NaN = NaN"
| "divide_fp rnd (Fin a) PInf = Fin 0"
| "divide_fp rnd (Fin a) MInf = Fin 0"
| "divide_fp rnd PInf (Fin b) = (if 0 \<le> b then PInf else MInf)"
| "divide_fp rnd MInf (Fin b) = (if 0 \<le> b then MInf else PInf)"
| "divide_fp rnd PInf PInf = NaN"
| "divide_fp rnd PInf MInf = NaN"
| "divide_fp rnd MInf PInf = NaN"
| "divide_fp rnd MInf MInf = NaN"

fun sqrt_fp :: "rounding \<Rightarrow> number \<Rightarrow> number" where
  "sqrt_fp rnd (Fin a) = (if a < 0 then NaN else rnd (sqrt a))"
| "sqrt_fp rnd PInf = PInf"
| "sqrt_fp rnd MInf = NaN"
| "sqrt_fp rnd NaN = NaN"

text \<open>The comparison \<^verbatim>\<open><\<close>: false whenever an operand is a NaN.\<close>

fun less_fp :: "number \<Rightarrow> number \<Rightarrow> bool" where
  "less_fp (Fin a) (Fin b) \<longleftrightarrow> a < b"
| "less_fp NaN y \<longleftrightarrow> False"
| "less_fp x NaN \<longleftrightarrow> False"
| "less_fp PInf y \<longleftrightarrow> False"
| "less_fp x MInf \<longleftrightarrow> False"
| "less_fp MInf y \<longleftrightarrow> True"
| "less_fp x PInf \<longleftrightarrow> True"

subsection \<open>Field vectors\<close>

text \<open>
  \<open>VectorType\<close> is deal.II's distributed vector, a collaborator outside this repository.
  A field vector is the list of its entries. The operations used by the driver are
  \<open>operator*\<close> (the inner product, \<open>dot\<close>), \<open>l2_norm\<close>, \<open>x.add(a, V)\<close> (\<open>x += a * V\<close>),
  \<open>x *= s\<close> (\<open>scale\<close>), \<open>x = 0.0\<close> (\<open>set_zero\<close>) and \<open>x.equ(a, V)\<close> (\<open>x = a * V\<close>).
  deal.II requires both operands of a binary operation to have the same size.
\<close>

type_synonym vec = "real list"

definition dot :: "vec \<Rightarrow> vec \<Rightarrow> real" where
  "dot x y = sum_list (map2 (*) x y)"

definition l2_norm :: "vec \<Rightarrow> real" where
  "l2_norm x = sqrt (dot x x)"

definition add :: "real \<Rightarrow> vec \<Rightarrow> vec \<Rightarrow> vec" where
  "add a V x = map2 (\<lambda>xi vi. xi + a * vi) x V"

definition scale :: "real \<Rightarrow> vec \<Rightarrow> vec" where
  "scale s x = map (\<lambda>xi. xi * s) x"

definition set_zero :: "vec \<Rightarrow> vec" where
  "set_zero x = map (\<lambda>xi. 0) x"

definition equ :: "real \<Rightarrow> vec \<Rightarrow> vec \<Rightarrow> vec" where
  "equ a V x = map (\<lambda>vi. a * vi) V"

text \<open>
  The same operations on vectors of \<open>number\<close>s. Every multiplication and every addition is
  rounded on its own. The inner product adds the products from the first entry to the
  last, starting from zero; \<open>l2_norm\<close> is the square root of the inner product of the
  vector with itself, without rescaling.
\<close>

type_synonym vec_fp = "number list"

definition dot_fp :: "rounding \<Rightarrow> vec_fp \<Rightarrow> vec_fp \<Rightarrow> number" where
  "dot_fp rnd x y =
     foldl (\<lambda>s (xi, yi). plus_fp rnd s (times_fp rnd xi yi)) (Fin 0) (zip x y)"

definition l2_norm_fp :: "rounding \<Rightarrow> vec_fp \<Rightarrow> number" where
  "l2_norm_fp rnd x = sqrt_fp rnd (dot_fp rnd x x)"

definition add_fp :: "rounding \<Rightarrow> number \<Rightarrow> vec_fp \<Rightarrow> vec_fp \<Rightarrow> vec_fp" where
  "add_fp rnd a V x = map2 (\<lambda>xi vi. plus_fp rnd xi (times_fp rnd a vi)) x V"

definition scale_fp :: "rounding \<Rightarrow> number \<Rightarrow> vec_fp \<Rightarrow> vec_fp" where
  "scale_fp rnd s x = map (\<lambda>xi. times_fp rnd xi s) x"

definition set_zero_fp :: "vec_fp \<Rightarrow> vec_fp" where
  "set_zero_fp x = map (\<lambda>xi. Fin 0) x"

definition equ_fp :: "rounding \<Rightarrow> number \<Rightarrow> vec_fp \<Rightarrow> vec_fp \<Rightarrow> vec_fp" where
  "equ_fp rnd a V x = map (\<lambda>vi. times_fp rnd a vi) V"

text \<open>A vector of reals as a vector of finite \<open>number\<close>s.\<close>

definition Fin_vec :: "vec \<Rightarrow> vec_fp" where
  "Fin_vec x = map Fin x"

subsection \<open>The class \<open>Matrix\<close>\<close>

text \<open>The class template \<open>Matrix<Number>\<close>: the size \<open>M\<close> and the storage \<open>data\<close>.\<close>

record 'n Matrix =
  M :: nat
  data :: "'n list"

text \<open>The index \<^verbatim>\<open>i * M + j\<close>, computed in \<open>unsigned int\<close>.\<close>

definition flat_index :: "'n Matrix \<Rightarrow> nat \<Rightarrow> nat \<Rightarrow> nat" where
  "flat_index A i j = (i * M A + j) mod 2 ^ 32"

text \<open>The assignment \<^verbatim>\<open>data[i * M + j] = Number(0.0)\<close> in the loops of \<open>init\<close>.\<close>

definition init_entry :: "nat \<Rightarrow> nat \<Rightarrow> 'n::zero Matrix \<Rightarrow> error + 'n Matrix" where
  "init_entry i j A =
     (case write_at (data A) (flat_index A i j) 0 of
        Inl e \<Rightarrow> Inl e
      | Inr d \<Rightarrow> Inr (A\<lparr>data := d\<rparr>))"

definition init :: "'n::zero Matrix \<Rightarrow> error + 'n Matrix" where
  "init A = foldE (\<lambda>i A1. foldE (init_entry i) [0..<M A1] A1) [0..<M A] A"

text \<open>
  The constructor: \<^verbatim>\<open>data.resize(M * M)\<close> with the product taken in \<open>unsigned int\<close>
  (the new elements are value-initialised), then \<open>init()\<close>.
\<close>

definition Matrix_new :: "nat \<Rightarrow> error + 'n::zero Matrix" where
  "Matrix_new sz = init \<lparr>M = sz, data = replicate ((sz * sz) mod 2 ^ 32) 0\<rparr>"

definition get :: "'n Matrix \<Rightarrow> nat \<Rightarrow> nat \<Rightarrow> error + 'n" where
  "get A i j =
     (if i < M A \<and> j < M A then read_at (data A) (flat_index A i j) else Inl IndexError)"

definition set_Matrix :: "'n Matrix \<Rightarrow> 'n \<Rightarrow> nat \<Rightarrow> nat \<Rightarrow> error + 'n Matrix" where
  "set_Matrix A v i j =
     (if i < M A \<and> j < M A
      then (case write_at (data A) (flat_index A i j) v of
              Inl e \<Rightarrow> Inl e
            | Inr d \<Rightarrow> Inr (A\<lparr>data := d\<rparr>))
      else Inl IndexError)"

text \<open>
  The invariant of the class: the storage holds \<open>M * M\<close> entries and the product did not
  wrap. The constructor establishes it; for a size whose square wraps, \<open>init()\<close> writes
  outside the storage and no object results (\<open>Matrix_new_iff\<close> below). \<open>set\<close> and \<open>init\<close>
  keep it; \<open>M\<close> is constant and \<open>data\<close> is private, so it holds of every \<open>Matrix\<close> object.
\<close>

definition Matrix_inv :: "'n Matrix \<Rightarrow> bool" where
  "Matrix_inv A \<longleftrightarrow> M A * M A < 2 ^ 32 \<and> length (data A) = M A * M A"

text \<open>A matrix of reals as a matrix of finite \<open>number\<close>s.\<close>

definition Fin_Matrix :: "real Matrix \<Rightarrow> number Matrix" where
  "Fin_Matrix A = \<lparr>M = M A, data = map Fin (data A)\<rparr>"

subsection \<open>\<open>compute_QR_decomposition\<close>\<close>

text \<open>
  The state of the factorization is the pair of \<open>Q\<close> and \<open>R\<close>, both passed by reference.
  Inside the loops the index \<open>i\<close> is below \<open>Q.size()\<close>, which no statement changes, so
  \<open>Q[i]\<close> and \<open>Q[j]\<close> are read with \<open>!\<close> and written with a list update.
\<close>

type_synonym qr_state = "vec_fp list \<times> number Matrix"

text \<open>The first inner loop: \<^verbatim>\<open>r_ji = Q[j] * Q[i]; R.set(r_ji, j, i); Q[i].add(-r_ji, Q[j])\<close>.\<close>

fun orthogonalize_step :: "rounding \<Rightarrow> nat \<Rightarrow> nat \<Rightarrow> qr_state \<Rightarrow> error + qr_state" where
  "orthogonalize_step rnd i j (Q, R) =
     (let r_ji = dot_fp rnd (Q ! j) (Q ! i) in
      (case set_Matrix R r_ji j i of
         Inl e \<Rightarrow> Inl e
       | Inr R' \<Rightarrow> Inr (Q[i := add_fp rnd (uminus_fp r_ji) (Q ! j) (Q ! i)], R')))"

definition orthogonalize :: "rounding \<Rightarrow> nat \<Rightarrow> qr_state \<Rightarrow> error + qr_state" where
  "orthogonalize rnd i s = foldE (orthogonalize_step rnd i) [0..<i] s"

text \<open>The second inner loop, of the branch that drops the column: \<^verbatim>\<open>R.set(0.0, j, i)\<close>.\<close>

definition clear_column :: "nat \<Rightarrow> 'n::zero Matrix \<Rightarrow> error + 'n Matrix" where
  "clear_column i R = foldE (\<lambda>j R1. set_Matrix R1 0 j i) [0..<i] R"

text \<open>
  The branch on \<^verbatim>\<open>r_ii < eps * norm_initial\<close>. In the other branch \<open>R.set(r_ii, i, i)\<close>
  comes first and \<^verbatim>\<open>Q[i] *= 1. / r_ii\<close> second; with \<open>r_ii = 0\<close> the factor is
  \<open>PInf\<close>, the entries of \<open>Q[i]\<close> become infinities or NaNs, and the run goes on.
\<close>

fun normalize_or_drop ::
    "rounding \<Rightarrow> number \<Rightarrow> nat \<Rightarrow> number \<Rightarrow> qr_state \<Rightarrow> error + qr_state" where
  "normalize_or_drop rnd eps i norm_initial (Q, R) =
     (let r_ii = l2_norm_fp rnd (Q ! i) in
      if less_fp r_ii (times_fp rnd eps norm_initial)
      then (case clear_column i R of
              Inl e \<Rightarrow> Inl e
            | Inr R1 \<Rightarrow>
                (case set_Matrix R1 (Fin 1) i i of
                   Inl e \<Rightarrow> Inl e
                 | Inr R2 \<Rightarrow> Inr (Q[i := set_zero_fp (Q ! i)], R2)))
      else (case set_Matrix R r_ii i i of
              Inl e \<Rightarrow> Inl e
            | Inr R1 \<Rightarrow>
                Inr (Q[i := scale_fp rnd (divide_fp rnd (Fin 1) r_ii) (Q ! i)], R1)))"

text \<open>The body of the outer loop, for the column \<open>i\<close>.\<close>

definition qr_column :: "rounding \<Rightarrow> number \<Rightarrow> nat \<Rightarrow> qr_state \<Rightarrow> error + qr_state" where
  "qr_column rnd eps i s =
     (let norm_initial = l2_norm_fp rnd (fst s ! i) in
      case orthogonalize rnd i s of
        Inl e \<Rightarrow> Inl e
      | Inr s1 \<Rightarrow> normalize_or_drop rnd eps i norm_initial s1)"

definition compute_QR_decomposition ::
    "rounding \<Rightarrow> vec_fp list \<Rightarrow> number Matrix \<Rightarrow> number \<Rightarrow> error + qr_state" where
  "compute_QR_decomposition rnd Q R eps = foldE (qr_column rnd eps) [0..<length Q] (Q, R)"

text \<open>The default argument \<^verbatim>\<open>eps = 1.e-2\<close>: the value stored for the decimal literal.\<close>

definition eps_default :: "rounding \<Rightarrow> number" where
  "eps_default rnd = rnd (1 / 100)"

text \<open>
  The column \<open>i\<close> is kept, and by a non-zero factor: in the state \<open>s\<close> on entering the
  iteration \<open>i\<close>, the test \<^verbatim>\<open>r_ii < eps * norm_initial\<close> fails and \<open>r_ii\<close> is not zero.
\<close>

definition column_kept :: "rounding \<Rightarrow> number \<Rightarrow> nat \<Rightarrow> qr_state \<Rightarrow> bool" where
  "column_kept rnd eps i s \<longleftrightarrow>
     (let norm_initial = l2_norm_fp rnd (fst s ! i) in
      case orthogonalize rnd i s of
        Inl e \<Rightarrow> False
      | Inr s1 \<Rightarrow>
          (let r_ii = l2_norm_fp rnd (fst s1 ! i) in
           \<not> less_fp r_ii (times_fp rnd eps norm_initial) \<and> r_ii \<noteq> Fin 0))"

subsection \<open>\<open>compute_QR_decomposition\<close> on real numbers\<close>

text \<open>
  The same statements on \<open>real\<close>, for the proofs in exact arithmetic. A division by zero
  has no real value: here, and only here, the run stops at it with \<open>NonFinite\<close>. Wherever
  this run returns, the run on \<open>number\<close> with the rounding \<open>exact\<close> returns the same values
  (\<open>compute_QR_decomposition_exact_sim\<close> below).
\<close>

type_synonym qr_state_exact = "vec list \<times> real Matrix"

fun orthogonalize_step_exact ::
    "nat \<Rightarrow> nat \<Rightarrow> qr_state_exact \<Rightarrow> error + qr_state_exact" where
  "orthogonalize_step_exact i j (Q, R) =
     (let r_ji = dot (Q ! j) (Q ! i) in
      (case set_Matrix R r_ji j i of
         Inl e \<Rightarrow> Inl e
       | Inr R' \<Rightarrow> Inr (Q[i := add (- r_ji) (Q ! j) (Q ! i)], R')))"

definition orthogonalize_exact :: "nat \<Rightarrow> qr_state_exact \<Rightarrow> error + qr_state_exact" where
  "orthogonalize_exact i s = foldE (orthogonalize_step_exact i) [0..<i] s"

fun normalize_or_drop_exact ::
    "real \<Rightarrow> nat \<Rightarrow> real \<Rightarrow> qr_state_exact \<Rightarrow> error + qr_state_exact" where
  "normalize_or_drop_exact eps i norm_initial (Q, R) =
     (let r_ii = l2_norm (Q ! i) in
      if r_ii < eps * norm_initial
      then (case clear_column i R of
              Inl e \<Rightarrow> Inl e
            | Inr R1 \<Rightarrow>
                (case set_Matrix R1 1 i i of
                   Inl e \<Rightarrow> Inl e
                 | Inr R2 \<Rightarrow> Inr (Q[i := set_zero (Q ! i)], R2)))
      else (case set_Matrix R r_ii i i of
              Inl e \<Rightarrow> Inl e
            | Inr R1 \<Rightarrow>
                if r_ii = 0 then Inl NonFinite
                else Inr (Q[i := scale (1 / r_ii) (Q ! i)], R1)))"

definition qr_column_exact :: "real \<Rightarrow> nat \<Rightarrow> qr_state_exact \<Rightarrow> error + qr_state_exact" where
  "qr_column_exact eps i s =
     (let norm_initial = l2_norm (fst s ! i) in
      case orthogonalize_exact i s of
        Inl e \<Rightarrow> Inl e
      | Inr s1 \<Rightarrow> normalize_or_drop_exact eps i norm_initial s1)"

definition compute_QR_decomposition_exact ::
    "vec list \<Rightarrow> real Matrix \<Rightarrow> real \<Rightarrow> error + qr_state_exact" where
  "compute_QR_decomposition_exact Q R eps =
     foldE (qr_column_exact eps) [0..<length Q] (Q, R)"

text \<open>A state of the run on \<open>real\<close> as a state of the run on \<open>number\<close>.\<close>

fun Fin_state :: "qr_state_exact \<Rightarrow> qr_state" where
  "Fin_state (Q, R) = (map Fin_vec Q, Fin_Matrix R)"

subsection \<open>\<open>backward_substitution\<close>\<close>

text \<open>
  \<open>rhs[i]\<close> is read with a checked access, since nothing bounds \<open>i\<close> by \<open>rhs.size()\<close>;
  \<open>dst[j]\<close> and \<open>dst[i]\<close> are inside \<open>dst\<close>, as \<open>n = dst.size()\<close>.
\<close>

definition subtract_row ::
    "real Matrix \<Rightarrow> real list \<Rightarrow> nat \<Rightarrow> nat \<Rightarrow> real \<Rightarrow> error + real" where
  "subtract_row matrix dst i j val =
     (case get matrix i j of
        Inl e \<Rightarrow> Inl e
      | Inr m_ij \<Rightarrow> Inr (val - m_ij * dst ! j))"

definition solve_row ::
    "real Matrix \<Rightarrow> real list \<Rightarrow> nat \<Rightarrow> nat \<Rightarrow> real list \<Rightarrow> error + real list" where
  "solve_row matrix rhs n i dst =
     (case read_at rhs i of
        Inl e \<Rightarrow> Inl e
      | Inr rhs_i \<Rightarrow>
          (case foldE (subtract_row matrix dst i) [i + 1..<n] rhs_i of
             Inl e \<Rightarrow> Inl e
           | Inr val \<Rightarrow>
               (case get matrix i i of
                  Inl e \<Rightarrow> Inl e
                | Inr m_ii \<Rightarrow>
                    if m_ii = 0 then Inl NonFinite
                    else Inr (dst[i := val / m_ii]))))"

definition backward_substitution ::
    "real Matrix \<Rightarrow> real list \<Rightarrow> real list \<Rightarrow> error + real list" where
  "backward_substitution matrix dst rhs =
     (let n = length dst in foldE (solve_row matrix rhs n) (rev [0..<n]) dst)"

subsection \<open>\<open>backward_substitution_multiple_rhs\<close>\<close>

definition subtract_row_multiple_rhs ::
    "real Matrix \<Rightarrow> vec list \<Rightarrow> nat \<Rightarrow> nat \<Rightarrow> vec \<Rightarrow> error + vec" where
  "subtract_row_multiple_rhs matrix dst i j val =
     (case get matrix i j of
        Inl e \<Rightarrow> Inl e
      | Inr m_ij \<Rightarrow> Inr (add (- m_ij) (dst ! j) val))"

definition solve_row_multiple_rhs ::
    "real Matrix \<Rightarrow> vec list \<Rightarrow> nat \<Rightarrow> nat \<Rightarrow> vec list \<Rightarrow> error + vec list" where
  "solve_row_multiple_rhs matrix rhs n i dst =
     (case read_at rhs i of
        Inl e \<Rightarrow> Inl e
      | Inr rhs_i \<Rightarrow>
          (case foldE (subtract_row_multiple_rhs matrix dst i) [i + 1..<n] rhs_i of
             Inl e \<Rightarrow> Inl e
           | Inr val \<Rightarrow>
               (case get matrix i i of
                  Inl e \<Rightarrow> Inl e
                | Inr m_ii \<Rightarrow>
                    if m_ii = 0 then Inl NonFinite
                    else Inr (dst[i := equ (1 / m_ii) val (dst ! i)]))))"

definition backward_substitution_multiple_rhs ::
    "real Matrix \<Rightarrow> vec list \<Rightarrow> vec list \<Rightarrow> error + vec list" where
  "backward_substitution_multiple_rhs matrix dst rhs =
     (let n = length dst in foldE (solve_row_multiple_rhs matrix rhs n) (rev [0..<n]) dst)"

subsection \<open>The back-substitution routines on \<open>number\<close>\<close>

text \<open>
  The two routines with the operations of the source, each rounded on its own:
  \<^verbatim>\<open>value -= matrix.get(i, j) * dst[j]\<close> and \<^verbatim>\<open>dst[i] = value / matrix.get(i, i)\<close> in
  the scalar routine; \<^verbatim>\<open>value.add(-matrix.get(i, j), dst[j])\<close> and
  \<^verbatim>\<open>dst[i].equ(1.0 / matrix.get(i, i), value)\<close> in the other, which divides once and
  multiplies every entry of \<open>value\<close> by the quotient. A zero on the diagonal gives
  infinities or NaNs, and the run goes on.
\<close>

definition subtract_row_fp ::
    "rounding \<Rightarrow> number Matrix \<Rightarrow> number list \<Rightarrow> nat \<Rightarrow> nat \<Rightarrow> number \<Rightarrow> error + number" where
  "subtract_row_fp rnd matrix dst i j val =
     (case get matrix i j of
        Inl e \<Rightarrow> Inl e
      | Inr m_ij \<Rightarrow> Inr (minus_fp rnd val (times_fp rnd m_ij (dst ! j))))"

definition solve_row_fp ::
    "rounding \<Rightarrow> number Matrix \<Rightarrow> number list \<Rightarrow> nat \<Rightarrow> nat \<Rightarrow> number list \<Rightarrow>
     error + number list" where
  "solve_row_fp rnd matrix rhs n i dst =
     (case read_at rhs i of
        Inl e \<Rightarrow> Inl e
      | Inr rhs_i \<Rightarrow>
          (case foldE (subtract_row_fp rnd matrix dst i) [i + 1..<n] rhs_i of
             Inl e \<Rightarrow> Inl e
           | Inr val \<Rightarrow>
               (case get matrix i i of
                  Inl e \<Rightarrow> Inl e
                | Inr m_ii \<Rightarrow> Inr (dst[i := divide_fp rnd val m_ii]))))"

definition backward_substitution_fp ::
    "rounding \<Rightarrow> number Matrix \<Rightarrow> number list \<Rightarrow> number list \<Rightarrow> error + number list" where
  "backward_substitution_fp rnd matrix dst rhs =
     (let n = length dst in foldE (solve_row_fp rnd matrix rhs n) (rev [0..<n]) dst)"

definition subtract_row_multiple_rhs_fp ::
    "rounding \<Rightarrow> number Matrix \<Rightarrow> vec_fp list \<Rightarrow> nat \<Rightarrow> nat \<Rightarrow> vec_fp \<Rightarrow> error + vec_fp" where
  "subtract_row_multiple_rhs_fp rnd matrix dst i j val =
     (case get matrix i j of
        Inl e \<Rightarrow> Inl e
      | Inr m_ij \<Rightarrow> Inr (add_fp rnd (uminus_fp m_ij) (dst ! j) val))"

definition solve_row_multiple_rhs_fp ::
    "rounding \<Rightarrow> number Matrix \<Rightarrow> vec_fp list \<Rightarrow> nat \<Rightarrow> nat \<Rightarrow> vec_fp list \<Rightarrow>
     error + vec_fp list" where
  "solve_row_multiple_rhs_fp rnd matrix rhs n i dst =
     (case read_at rhs i of
        Inl e \<Rightarrow> Inl e
      | Inr rhs_i \<Rightarrow>
          (case foldE (subtract_row_multiple_rhs_fp rnd matrix dst i) [i + 1..<n] rhs_i of
             Inl e \<Rightarrow> Inl e
           | Inr val \<Rightarrow>
               (case get matrix i i of
                  Inl e \<Rightarrow> Inl e
                | Inr m_ii \<Rightarrow>
                    Inr (dst[i := equ_fp rnd (divide_fp rnd (Fin 1) m_ii) val (dst ! i)]))))"

definition backward_substitution_multiple_rhs_fp ::
    "rounding \<Rightarrow> number Matrix \<Rightarrow> vec_fp list \<Rightarrow> vec_fp list \<Rightarrow> error + vec_fp list" where
  "backward_substitution_multiple_rhs_fp rnd matrix dst rhs =
     (let n = length dst
      in foldE (solve_row_multiple_rhs_fp rnd matrix rhs n) (rev [0..<n]) dst)"

subsection \<open>\<open>inv_jacobian_times_residual\<close>\<close>










subsection \<open>The recurrence of the specification\<close>




subsection \<open>Invariants of the loops\<close>

text \<open>
  The rows \<open>k\<close> to \<open>n - 1\<close> of \<open>x\<close> satisfy the recurrence of back-substitution (the
  invariant of the outer loop).
\<close>

definition solves_rows :: "(nat \<Rightarrow> nat \<Rightarrow> real) \<Rightarrow> real list \<Rightarrow> nat \<Rightarrow> nat \<Rightarrow> real list \<Rightarrow> bool" where
  "solves_rows a rhs n k x \<longleftrightarrow>
     length x = n \<and>
     (\<forall>i. k \<le> i \<and> i < n \<longrightarrow> x ! i = (rhs ! i - (\<Sum>j = Suc i..<n. a i j * x ! j)) / a i i)"

text \<open>
  The same for unknowns that are field vectors of dimension \<open>d\<close>, component by component.
\<close>

definition solves_rows_multiple_rhs ::
    "(nat \<Rightarrow> nat \<Rightarrow> real) \<Rightarrow> vec list \<Rightarrow> nat \<Rightarrow> nat \<Rightarrow> nat \<Rightarrow> vec list \<Rightarrow> bool" where
  "solves_rows_multiple_rhs a rhs d n k X \<longleftrightarrow>
     length X = n \<and>
     (\<forall>i. k \<le> i \<and> i < n \<longrightarrow> length (X ! i) = d \<and>
        (\<forall>c<d. X ! i ! c = (rhs ! i ! c - (\<Sum>j = Suc i..<n. a i j * X ! j ! c)) / a i i))"


text \<open>
  The entry of the storage that \<open>get(i, j)\<close> returns, for a matrix that satisfies the
  invariant and indices in range.
\<close>

definition entry :: "'n Matrix \<Rightarrow> nat \<Rightarrow> nat \<Rightarrow> 'n" where
  "entry A i j = data A ! (i * M A + j)"

text \<open>The first \<open>i\<close> vectors of \<open>Q\<close> are pairwise orthonormal.\<close>

definition orthonormal_upto :: "vec list \<Rightarrow> nat \<Rightarrow> bool" where
  "orthonormal_upto Q i \<longleftrightarrow> (\<forall>k<i. \<forall>l<i. dot (Q ! k) (Q ! l) = (if k = l then 1 else 0))"

text \<open>
  The invariant of the first inner loop of \<open>compute_QR_decomposition\<close> after \<open>j\<close> steps on
  the column \<open>i\<close>, from the state \<open>(Q, R)\<close>: only \<open>Q[i]\<close> and the entries \<open>R[l][i]\<close>, \<open>l < j\<close>,
  have changed; the old \<open>Q[i]\<close> is the new one plus the combination of the \<open>Q[l]\<close> with the
  stored coefficients; and if the earlier columns are orthonormal the new \<open>Q[i]\<close> is
  orthogonal to the first \<open>j\<close> of them.
\<close>

definition orth_inv ::
    "vec list \<Rightarrow> real Matrix \<Rightarrow> nat \<Rightarrow> nat \<Rightarrow> nat \<Rightarrow> qr_state_exact \<Rightarrow> bool" where
  "orth_inv Q R d i j s \<longleftrightarrow>
     (case s of (Qj, Rj) \<Rightarrow>
        length Qj = length Q \<and> (\<forall>k. k \<noteq> i \<longrightarrow> Qj ! k = Q ! k) \<and> length (Qj ! i) = d \<and>
        Matrix_inv Rj \<and> M Rj = M R \<and>
        (\<forall>a b. a < M R \<and> b < M R \<and> \<not> (b = i \<and> a < j) \<longrightarrow> entry Rj a b = entry R a b) \<and>
        (\<forall>c<d. Q ! i ! c = Qj ! i ! c + (\<Sum>l<j. entry Rj l i * Q ! l ! c)) \<and>
        (orthonormal_upto Q i \<longrightarrow> (\<forall>l<j. dot (Q ! l) (Qj ! i) = 0)))"

text \<open>
  The invariant of the outer loop after \<open>i\<close> columns, from the input \<open>(Q0, R0)\<close>: the later
  columns of \<open>Q\<close>, the later columns of \<open>R\<close> and the part of \<open>R\<close> below the diagonal are
  untouched; and if none of the first \<open>i\<close> columns is zero, these are orthonormal and every
  input column \<open>k < i\<close> is the combination of the columns \<open>l \<le> k\<close> of \<open>Q\<close> with the
  coefficients \<open>R[l][k]\<close>.
\<close>

definition qr_inv ::
    "vec list \<Rightarrow> real Matrix \<Rightarrow> nat \<Rightarrow> nat \<Rightarrow> qr_state_exact \<Rightarrow> bool" where
  "qr_inv Q0 R0 d i s \<longleftrightarrow>
     (case s of (Qi, Ri) \<Rightarrow>
        length Qi = length Q0 \<and> (\<forall>k<length Q0. length (Qi ! k) = d) \<and>
        (\<forall>k. i \<le> k \<longrightarrow> Qi ! k = Q0 ! k) \<and> Matrix_inv Ri \<and> M Ri = M R0 \<and>
        (\<forall>a b. a < M R0 \<and> b < M R0 \<and> (i \<le> b \<or> b < a) \<longrightarrow> entry Ri a b = entry R0 a b) \<and>
        ((\<forall>k<i. l2_norm (Qi ! k) \<noteq> 0) \<longrightarrow>
           orthonormal_upto Qi i \<and>
           (\<forall>k<i. \<forall>c<d. Q0 ! k ! c = (\<Sum>l\<le>k. entry Ri l k * Qi ! l ! c))))"

section \<open>Loops\<close>

lemma foldE_append:
  "foldE f (xs @ ys) s = (case foldE f xs s of Inl e \<Rightarrow> Inl e | Inr s' \<Rightarrow> foldE f ys s')"
  by (induction xs arbitrary: s) (auto split: sum.splits)

lemma foldE_upt_rule:
  assumes "P a s"
    and "\<And>k t. a \<le> k \<Longrightarrow> k < n \<Longrightarrow> P k t \<Longrightarrow> \<exists>t'. f k t = Inr t' \<and> P (Suc k) t'"
    and "a \<le> n"
  shows "\<exists>s'. foldE f [a..<n] s = Inr s' \<and> P n s'"
  using assms(3,1,2)
proof (induction n arbitrary: )
  case 0
  then show ?case by simp
next
  case (Suc n)
  show ?case
  proof (cases "a = Suc n")
    case True
    then show ?thesis using Suc.prems by simp
  next
    case False
    then have an: "a \<le> n" using Suc.prems by simp
    have "\<exists>s'. foldE f [a..<n] s = Inr s' \<and> P n s'"
      by (rule Suc.IH [OF an Suc.prems(2)]) (use Suc.prems(3) in auto)
    then obtain s1 where s1: "foldE f [a..<n] s = Inr s1" "P n s1" by auto
    from Suc.prems(3) [OF an _ s1(2)] obtain s2 where "f n s1 = Inr s2" "P (Suc n) s2"
      by auto
    then show ?thesis using s1 an by (simp add: foldE_append)
  qed
qed

lemma foldE_down_rule:
  assumes "P n s"
    and "\<And>k t. k < n \<Longrightarrow> P (Suc k) t \<Longrightarrow> \<exists>t'. f k t = Inr t' \<and> P k t'"
  shows "\<exists>s'. foldE f (rev [0..<n]) s = Inr s' \<and> P 0 s'"
  using assms
proof (induction n arbitrary: s)
  case 0
  then show ?case by simp
next
  case (Suc n)
  from Suc.prems(2) [of n s] Suc.prems(1) obtain t where t: "f n s = Inr t" "P n t" by auto
  have "\<exists>s'. foldE f (rev [0..<n]) t = Inr s' \<and> P 0 s'"
    by (rule Suc.IH [OF t(2)]) (use Suc.prems(2) in auto)
  then show ?case using t by simp
qed

lemma foldE_upt_partial:
  assumes "foldE f [a..<n] s = Inr s'" and "P a s"
    and "\<And>k t t'. a \<le> k \<Longrightarrow> k < n \<Longrightarrow> P k t \<Longrightarrow> f k t = Inr t' \<Longrightarrow> P (Suc k) t'"
    and "a \<le> n"
  shows "P n s'"
  using assms(4,1,3)
proof (induction n arbitrary: s')
  case 0
  then show ?case using assms(2) by simp
next
  case (Suc n)
  show ?case
  proof (cases "a = Suc n")
    case True
    then show ?thesis using Suc.prems assms(2) by simp
  next
    case False
    then have an: "a \<le> n" using Suc.prems by simp
    then have "[a..<Suc n] = [a..<n] @ [n]" by simp
    then obtain t where t: "foldE f [a..<n] s = Inr t" "f n t = Inr s'"
      using Suc.prems(2) by (auto simp: foldE_append split: sum.splits)
    have "P n t" by (rule Suc.IH [OF an t(1)]) (use Suc.prems(3) in auto)
    then show ?thesis using Suc.prems(3) [OF an _ _ t(2)] by simp
  qed
qed

lemma foldE_step_succeeds:
  assumes "foldE f xs s = Inr s'" and "I s"
    and "\<And>x t t'. I t \<Longrightarrow> f x t = Inr t' \<Longrightarrow> I t'"
    and "x \<in> set xs"
  shows "\<exists>t t'. I t \<and> f x t = Inr t'"
  using assms(1,2,4)
proof (induction xs arbitrary: s)
  case Nil
  then show ?case by simp
next
  case (Cons y ys)
  from Cons.prems(1) obtain t where t: "f y s = Inr t" "foldE f ys t = Inr s'"
    by (auto split: sum.splits)
  show ?case
  proof (cases "x = y")
    case True
    then show ?thesis using t Cons.prems(2) by blast
  next
    case False
    then have "x \<in> set ys" using Cons.prems(3) by simp
    moreover have "I t" using assms(3) Cons.prems(2) t(1) by blast
    ultimately show ?thesis using Cons.IH t(2) by blast
  qed
qed

lemma index_in_square: "i < m \<Longrightarrow> j < m \<Longrightarrow> i * m + j < m * (m::nat)"
proof -
  assume a: "i < m" "j < m"
  then have "i * m + j < Suc i * m" by simp
  also have "\<dots> \<le> m * m" using a(1) by (metis Suc_leI mult_le_mono1)
  finally show ?thesis .
qed

lemma index_inj:
  "j < m \<Longrightarrow> j' < m \<Longrightarrow> i * m + j = i' * m + j' \<Longrightarrow> i = i' \<and> j = (j'::nat)"
proof -
  assume a: "j < m" "j' < m" "i * m + j = i' * m + j'"
  have "(i * m + j) div m = i" using a(1) by simp
  moreover have "(i' * m + j') div m = i'" using a(2) by simp
  ultimately have "i = i'" using a(3) by metis
  then show ?thesis using a(3) by simp
qed

lemma flat_index_inv:
  assumes "Matrix_inv A" "i < M A" "j < M A"
  shows "flat_index A i j = i * M A + j" and "i * M A + j < length (data A)"
proof -
  have lt: "i * M A + j < M A * M A" using assms(2,3) by (rule index_in_square)
  then show "i * M A + j < length (data A)" using assms(1) by (simp add: Matrix_inv_def)
  have "i * M A + j < 2 ^ 32" using lt assms(1) by (simp add: Matrix_inv_def)
  then show "flat_index A i j = i * M A + j" by (simp add: flat_index_def)
qed

lemma get_inv:
  "Matrix_inv A \<Longrightarrow> i < M A \<Longrightarrow> j < M A \<Longrightarrow> get A i j = Inr (data A ! (i * M A + j))"
  by (simp add: get_def read_at_def flat_index_inv)

lemma set_inv:
  "Matrix_inv A \<Longrightarrow> i < M A \<Longrightarrow> j < M A \<Longrightarrow>
   set_Matrix A v i j = Inr (A\<lparr>data := (data A)[i * M A + j := v]\<rparr>)"
  by (simp add: set_Matrix_def write_at_def flat_index_inv)

lemma Matrix_inv_update: "Matrix_inv A \<Longrightarrow> Matrix_inv (A\<lparr>data := (data A)[k := v]\<rparr>)"
  by (simp add: Matrix_inv_def)

section \<open>The class \<open>Matrix\<close>: constructor, \<open>init\<close>, \<open>get\<close> and \<open>set\<close>\<close>

lemma foldE_preserves:
  assumes "foldE f xs s = Inr s'" and "I s"
    and "\<And>x t t'. I t \<Longrightarrow> f x t = Inr t' \<Longrightarrow> I t'"
  shows "I s'"
  using assms(1,2)
proof (induction xs arbitrary: s)
  case Nil
  then show ?case by simp
next
  case (Cons y ys)
  from Cons.prems(1) obtain t where t: "f y s = Inr t" "foldE f ys t = Inr s'"
    by (auto split: sum.splits)
  have "I t" using assms(3) Cons.prems(2) t(1) by blast
  then show ?case using Cons.IH t(2) by blast
qed

lemma init_alt: "init A = foldE (\<lambda>i A1. foldE (init_entry i) [0..<M A1] A1) [0..<M A] A"
  by (rule init_def)

lemma init_row:
  assumes "Matrix_inv A" "i < M A" "\<forall>k < i * M A. data A ! k = 0"
  shows "\<exists>A'. foldE (init_entry i) [0..<M A] A = Inr A' \<and>
           (Matrix_inv A' \<and> M A' = M A \<and> (\<forall>k < i * M A + M A. data A' ! k = 0))"
proof (rule foldE_upt_rule
    [where P = "\<lambda>j A'. Matrix_inv A' \<and> M A' = M A \<and> (\<forall>k < i * M A + j. data A' ! k = 0)"])
  show "Matrix_inv A \<and> M A = M A \<and> (\<forall>k<i * M A + 0. data A ! k = 0)"
    using assms by simp
next
  fix j t
  assume j: "0 \<le> j" "j < M A"
    and t: "Matrix_inv t \<and> M t = M A \<and> (\<forall>k<i * M A + j. data t ! k = 0)"
  have fi: "flat_index t i j = i * M A + j" "i * M A + j < length (data t)"
    using flat_index_inv [of t i j] t j assms(2) by simp_all
  let ?t' = "t\<lparr>data := (data t)[i * M A + j := 0]\<rparr>"
  have "init_entry i j t = Inr ?t'"
    using fi by (simp add: init_entry_def write_at_def)
  moreover have "Matrix_inv ?t'" using t Matrix_inv_update [of t] by simp
  moreover have "\<forall>k<i * M A + Suc j. data ?t' ! k = 0"
    using t fi by (auto simp: nth_list_update less_Suc_eq)
  ultimately show "\<exists>t'. init_entry i j t = Inr t' \<and>
      (Matrix_inv t' \<and> M t' = M A \<and> (\<forall>k<i * M A + Suc j. data t' ! k = 0))"
    using t by simp
qed simp

lemma init_inv:
  assumes "Matrix_inv A"
  shows "init A = Inr (A\<lparr>data := replicate (M A * M A) 0\<rparr>)"
proof -
  have "\<exists>A'. foldE (\<lambda>i A1. foldE (init_entry i) [0..<M A1] A1) [0..<M A] A = Inr A' \<and>
          (Matrix_inv A' \<and> M A' = M A \<and> (\<forall>k < M A * M A. data A' ! k = 0))"
  proof (rule foldE_upt_rule
      [where P = "\<lambda>i A'. Matrix_inv A' \<and> M A' = M A \<and> (\<forall>k < i * M A. data A' ! k = 0)"])
    show "Matrix_inv A \<and> M A = M A \<and> (\<forall>k<0 * M A. data A ! k = 0)"
      using assms by simp
  next
    fix i t
    assume i: "0 \<le> i" "i < M A"
      and t: "Matrix_inv t \<and> M t = M A \<and> (\<forall>k<i * M A. data t ! k = 0)"
    from init_row [of t i] t i
    show "\<exists>t'. foldE (init_entry i) [0..<M t] t = Inr t' \<and>
        (Matrix_inv t' \<and> M t' = M A \<and> (\<forall>k<Suc i * M A. data t' ! k = 0))"
      by (simp add: add.commute)
  qed simp
  then obtain A' where A': "init A = Inr A'" "Matrix_inv A'" "M A' = M A"
      "\<forall>k < M A * M A. data A' ! k = 0"
    by (auto simp: init_alt)
  have "data A' = replicate (M A * M A) 0"
    using A'(2,3,4) by (intro nth_equalityI) (simp_all add: Matrix_inv_def)
  then have "A' = A\<lparr>data := replicate (M A * M A) 0\<rparr>"
    using A'(3) by simp
  then show ?thesis using A'(1) by simp
qed

lemma Matrix_new_small:
  assumes "m * m < 2 ^ 32"
  shows "Matrix_new m = Inr \<lparr>M = m, data = replicate (m * m) 0\<rparr>"
proof -
  let ?A = "\<lparr>M = m, data = replicate (m * m) 0\<rparr>"
  have "Matrix_inv ?A" using assms by (simp add: Matrix_inv_def)
  from init_inv [OF this] show ?thesis using assms by (simp add: Matrix_new_def)
qed

lemma init_entry_shape:
  "init_entry i j t = Inr t' \<Longrightarrow> M t' = M t \<and> length (data t') = length (data t)"
  by (auto simp: init_entry_def write_at_def split: if_splits)

lemma Matrix_new_large:
  fixes A :: "'n::zero Matrix"
  assumes "2 ^ 32 \<le> m * m"
  shows "Matrix_new m \<noteq> Inr A"
proof
  assume ok: "Matrix_new m = Inr A"
  define sz where "sz = (m * m) mod 2 ^ 32"
  define I where "I = (\<lambda>t::'n Matrix. M t = m \<and> length (data t) = sz)"
  define i0 where "i0 = (2 ^ 32 - 1) div m"
  define j0 where "j0 = (2 ^ 32 - 1) mod m"
  let ?A0 = "\<lparr>M = m, data = replicate sz (0::'n)\<rparr>"
  have m0: "0 < m" using assms by (cases m) simp_all
  have j0: "j0 < m" using m0 by (simp add: j0_def)
  have "(2 ^ 32 - 1 :: nat) < m * m" using assms by simp
  then have i0: "i0 < m" unfolding i0_def using m0
    by (simp add: less_mult_imp_div_less)
  have ij: "i0 * m + j0 = 2 ^ 32 - 1" by (simp add: i0_def j0_def)
  have run: "foldE (\<lambda>i A1. foldE (init_entry i) [0..<M A1] A1) [0..<m] ?A0 = Inr A"
    using ok by (simp add: Matrix_new_def init_alt sz_def)
  have inner: "I t'" if "I t" "foldE (init_entry i) xs t = Inr t'" for i xs t t'
    using that(2,1)
    by (rule foldE_preserves) (auto simp: I_def dest: init_entry_shape)
  have "\<exists>t t'. I t \<and> foldE (init_entry i0) [0..<M t] t = Inr t'"
    using run
  proof (rule foldE_step_succeeds)
    show "I ?A0" by (simp add: I_def)
    show "i0 \<in> set [0..<m]" using i0 by simp
  qed (use inner in blast)
  then obtain t t' where t: "I t" "foldE (init_entry i0) [0..<m] t = Inr t'"
    by (auto simp: I_def)
  have "\<exists>u u'. I u \<and> init_entry i0 j0 u = Inr u'"
    using t(2)
  proof (rule foldE_step_succeeds)
    show "I t" by (rule t)
    show "j0 \<in> set [0..<m]" using j0 by simp
  qed (auto simp: I_def dest: init_entry_shape)
  then obtain u u' where u: "I u" "init_entry i0 j0 u = Inr u'" by auto
  then have "flat_index u i0 j0 < sz"
    by (auto simp: init_entry_def write_at_def I_def split: if_splits)
  moreover have "flat_index u i0 j0 = 2 ^ 32 - 1"
    using u(1) ij by (simp add: flat_index_def I_def)
  moreover have "sz < 2 ^ 32" by (simp add: sz_def)
  ultimately show False by simp
qed

lemma Matrix_new_iff:
  "Matrix_new m = Inr A \<longleftrightarrow> m * m < 2 ^ 32 \<and> A = \<lparr>M = m, data = replicate (m * m) 0\<rparr>"
proof (cases "m * m < 2 ^ 32")
  case True
  then show ?thesis using Matrix_new_small [of m] by auto
next
  case False
  then show ?thesis using Matrix_new_large [of m A] by simp
qed

lemma Matrix_new_inv: "Matrix_new m = Inr A \<Longrightarrow> Matrix_inv A \<and> M A = m"
  by (auto simp: Matrix_new_iff Matrix_inv_def)

lemma set_Matrix_inv:
  "Matrix_inv A \<Longrightarrow> set_Matrix A v i j = Inr A' \<Longrightarrow> Matrix_inv A' \<and> M A' = M A"
  by (auto simp: set_Matrix_def write_at_def Matrix_inv_def split: if_splits)

lemma get_entry:
  "Matrix_inv A \<Longrightarrow> i < M A \<Longrightarrow> j < M A \<Longrightarrow> get A i j = Inr (entry A i j)"
  by (simp add: get_inv entry_def)

lemma set_Matrix_entry:
  assumes "Matrix_inv A" "i < M A" "j < M A"
  shows "\<exists>A'. set_Matrix A v i j = Inr A' \<and> Matrix_inv A' \<and> M A' = M A \<and> entry A' i j = v \<and>
           (\<forall>a b. a < M A \<and> b < M A \<and> (a, b) \<noteq> (i, j) \<longrightarrow> entry A' a b = entry A a b)"
proof -
  let ?A' = "A\<lparr>data := (data A)[i * M A + j := v]\<rparr>"
  have "set_Matrix A v i j = Inr ?A'" using assms by (rule set_inv)
  moreover have "Matrix_inv ?A'" using assms(1) by (rule Matrix_inv_update)
  moreover have "entry ?A' i j = v"
    using flat_index_inv(2) [OF assms] by (simp add: entry_def)
  moreover have "entry ?A' a b = entry A a b" if "a < M A \<and> b < M A \<and> (a, b) \<noteq> (i, j)" for a b
  proof -
    have "i * M A + j \<noteq> a * M A + b"
      using index_inj [of j "M A" b i a] that assms(3) by auto
    then show ?thesis by (simp add: entry_def)
  qed
  ultimately show ?thesis by auto
qed

lemma replicate_4: "replicate 4 (0::real) = [0, 0, 0, 0]"
  by (simp add: numeral_eq_Suc)

lemma upt_0_2: "[0..<2] = [0, 1]"
  by (simp add: upt_rec)

text \<open>
  Claim C8, as amended. For a \<open>Matrix\<close> constructed with size \<open>m\<close>, in any later state \<open>A\<close>:
  \<open>get(i, j)\<close> and \<open>set(value, i, j)\<close> fail with the index error if and only if
  \<open>i \<ge> m\<close> or \<open>j \<ge> m\<close>; for in-range indices both succeed, and the freshly
  constructed matrix returns \<open>0\<close> from \<open>get\<close>. The storage is mutated by \<open>set\<close> and by
  the public \<open>init()\<close>, which puts every entry back to zero, that is, gives the freshly
  constructed matrix again.
\<close>

theorem Matrix_get_set_index_error:
  assumes "Matrix_new m = Inr A0" and "Matrix_inv A" and "M A = m"
  shows "(get A i j = Inl IndexError \<longleftrightarrow> m \<le> i \<or> m \<le> j) \<and>
         (set_Matrix A v i j = Inl IndexError \<longleftrightarrow> m \<le> i \<or> m \<le> j) \<and>
         (i < m \<and> j < m \<longrightarrow>
            (\<exists>x. get A i j = Inr x) \<and> (\<exists>A'. set_Matrix A v i j = Inr A') \<and>
            get A0 i j = Inr 0) \<and>
         init A = Inr A0"
proof -
  have A0: "A0 = \<lparr>M = m, data = replicate (m * m) 0\<rparr>" "m * m < 2 ^ 32"
    using assms(1) by (simp_all add: Matrix_new_iff)
  have inv0: "Matrix_inv A0" "M A0 = m" using assms(1) Matrix_new_inv by auto
  have "get A i j = Inl IndexError \<longleftrightarrow> m \<le> i \<or> m \<le> j"
  proof (cases "i < m \<and> j < m")
    case True
    then show ?thesis using get_inv [of A i j] assms(2,3) by auto
  next
    case False
    then show ?thesis using assms(3) by (auto simp: get_def)
  qed
  moreover have "set_Matrix A v i j = Inl IndexError \<longleftrightarrow> m \<le> i \<or> m \<le> j"
  proof (cases "i < m \<and> j < m")
    case True
    then show ?thesis using set_inv [of A i j v] assms(2,3) by auto
  next
    case False
    then show ?thesis using assms(3) by (auto simp: set_Matrix_def)
  qed
  moreover have "(\<exists>x. get A i j = Inr x) \<and> (\<exists>A'. set_Matrix A v i j = Inr A') \<and>
      get A0 i j = Inr 0" if "i < m \<and> j < m"
  proof -
    have "i * m + j < m * m" using that by (simp add: index_in_square)
    then have "get A0 i j = Inr 0"
      using get_inv [of A0 i j] inv0 that by (simp add: A0(1))
    then show ?thesis
      using get_inv [of A i j] set_inv [of A i j v] assms(2,3) that by simp
  qed
  moreover have "init A = Inr A0"
    using init_inv [OF assms(2)] assms(3) by (simp add: A0(1))
  ultimately show ?thesis by blast
qed

theorem Matrix_get_set_index_error_witness:
  "Matrix_new 2 = Inr \<lparr>M = 2, data = [0, 0, 0, 0 :: real]\<rparr> \<and>
   Matrix_inv \<lparr>M = 2, data = [5, 1, 2, 3 :: real]\<rparr> \<and>
   get \<lparr>M = 2, data = [5, 1, 2, 3 :: real]\<rparr> 1 0 \<noteq> Inl IndexError \<and>
   get \<lparr>M = 2, data = [5, 1, 2, 3 :: real]\<rparr> 1 2 = Inl IndexError \<and>
   set_Matrix \<lparr>M = 2, data = [5, 1, 2, 3 :: real]\<rparr> 7 1 0 \<noteq> Inl IndexError \<and>
   set_Matrix \<lparr>M = 2, data = [5, 1, 2, 3 :: real]\<rparr> 7 2 1 = Inl IndexError \<and>
   (\<exists>x. get \<lparr>M = 2, data = [5, 1, 2, 3 :: real]\<rparr> 1 0 = Inr x) \<and>
   (\<exists>A'. set_Matrix \<lparr>M = 2, data = [5, 1, 2, 3 :: real]\<rparr> 7 1 0 = Inr A') \<and>
   get \<lparr>M = 2, data = [0, 0, 0, 0 :: real]\<rparr> 1 0 = Inr 0 \<and>
   init \<lparr>M = 2, data = [5, 1, 2, 3 :: real]\<rparr> = Inr \<lparr>M = 2, data = [0, 0, 0, 0 :: real]\<rparr>"
proof -
  have new: "Matrix_new 2 = Inr \<lparr>M = 2, data = [0, 0, 0, 0 :: real]\<rparr>"
    by (simp add: Matrix_new_iff replicate_4)
  have inv: "Matrix_inv \<lparr>M = 2, data = [5, 1, 2, 3 :: real]\<rparr>"
    by (simp add: Matrix_inv_def)
  have m: "M \<lparr>M = 2, data = [5, 1, 2, 3 :: real]\<rparr> = 2"
    by simp
  show ?thesis
    using new inv Matrix_get_set_index_error [OF new inv m, of 1 0 7]
      Matrix_get_set_index_error [OF new inv m, of 1 2 7]
      Matrix_get_set_index_error [OF new inv m, of 2 1 7]
    by simp
qed

text \<open>
  Claim C8 as stated says that the matrix performs no mutation other than through \<open>set\<close>.
  \<open>init()\<close> is public: on the matrix of size 1 whose entry was set to 5 it stores 0.
\<close>

theorem Matrix_init_mutates:
  "Matrix_new 1 = Inr \<lparr>M = 1, data = [0 :: real]\<rparr> \<and>
   set_Matrix \<lparr>M = 1, data = [0 :: real]\<rparr> 5 0 0 = Inr \<lparr>M = 1, data = [5 :: real]\<rparr> \<and>
   get \<lparr>M = 1, data = [5 :: real]\<rparr> 0 0 = Inr 5 \<and>
   init \<lparr>M = 1, data = [5 :: real]\<rparr> = Inr \<lparr>M = 1, data = [0 :: real]\<rparr> \<and>
   get \<lparr>M = 1, data = [0 :: real]\<rparr> 0 0 = Inr 0"
  by (simp add: Matrix_new_iff set_Matrix_def get_def init_def init_entry_def
      write_at_def read_at_def flat_index_def)

text \<open>
  Claim C10. For every \<open>Matrix\<close> \<open>A\<close>, every in-range index pair \<open>(i, j)\<close> and every
  value \<open>v\<close>, \<open>set(v, i, j)\<close> succeeds, a following \<open>get(i, j)\<close> returns \<open>v\<close>, and
  \<open>get(i', j')\<close> is unchanged at every other in-range index pair.
\<close>

theorem Matrix_set_frame:
  assumes "Matrix_inv A" and "i < M A" and "j < M A"
  shows "\<exists>A'. set_Matrix A v i j = Inr A' \<and> get A' i j = Inr v \<and>
           (\<forall>i' j'. i' < M A \<and> j' < M A \<and> (i', j') \<noteq> (i, j) \<longrightarrow> get A' i' j' = get A i' j')"
proof -
  let ?A' = "A\<lparr>data := (data A)[i * M A + j := v]\<rparr>"
  have s: "set_Matrix A v i j = Inr ?A'" using assms by (rule set_inv)
  have inv: "Matrix_inv ?A'" using assms(1) by (rule Matrix_inv_update)
  have "get ?A' i j = Inr v"
    using get_inv [OF inv, of i j] flat_index_inv(2) [OF assms] assms(2,3) by simp
  moreover have "get ?A' i' j' = get A i' j'"
    if "i' < M A \<and> j' < M A \<and> (i', j') \<noteq> (i, j)" for i' j'
  proof -
    have "i * M A + j \<noteq> i' * M A + j'"
      using index_inj [of j "M A" j' i i'] that assms(3) by auto
    then show ?thesis
      using get_inv [OF inv, of i' j'] get_inv [OF assms(1), of i' j'] that by simp
  qed
  ultimately show ?thesis using s by blast
qed

theorem Matrix_set_frame_witness:
  "Matrix_inv \<lparr>M = 2, data = [5, 1, 2, 3 :: real]\<rparr> \<and>
   (\<exists>A'. set_Matrix \<lparr>M = 2, data = [5, 1, 2, 3 :: real]\<rparr> 7 0 1 = Inr A' \<and>
      get A' 0 1 = Inr 7 \<and> get A' 0 0 = Inr 5 \<and> get A' 1 0 = Inr 2 \<and> get A' 1 1 = Inr 3)"
proof -
  have inv: "Matrix_inv \<lparr>M = 2, data = [5, 1, 2, 3 :: real]\<rparr>"
    by (simp add: Matrix_inv_def)
  have g: "get \<lparr>M = 2, data = [5, 1, 2, 3 :: real]\<rparr> 0 0 = Inr 5"
    "get \<lparr>M = 2, data = [5, 1, 2, 3 :: real]\<rparr> 1 0 = Inr 2"
    "get \<lparr>M = 2, data = [5, 1, 2, 3 :: real]\<rparr> 1 1 = Inr 3"
    by (simp_all add: get_def read_at_def flat_index_def)
  from Matrix_set_frame [OF inv, of 0 1 7]
  obtain A' where A': "set_Matrix \<lparr>M = 2, data = [5, 1, 2, 3 :: real]\<rparr> 7 0 1 = Inr A'"
    "get A' 0 1 = Inr 7"
    "\<forall>i' j'. i' < 2 \<and> j' < 2 \<and> (i', j') \<noteq> (0, 1) \<longrightarrow>
       get A' i' j' = get \<lparr>M = 2, data = [5, 1, 2, 3 :: real]\<rparr> i' j'"
    by auto
  have "get A' 0 0 = Inr 5" "get A' 1 0 = Inr 2" "get A' 1 1 = Inr 3"
    using A'(3) g by simp_all
  then show ?thesis using inv A'(1,2) by blast
qed

section \<open>Back-substitution\<close>

lemma subtract_rows:
  assumes "i < n" and "\<forall>j. i < j \<and> j < n \<longrightarrow> get R i j = Inr (a i j)"
  shows "foldE (subtract_row R dst i) [i + 1..<n] v =
           Inr (v - (\<Sum>j = Suc i..<n. a i j * dst ! j))"
proof -
  have "\<exists>v'. foldE (subtract_row R dst i) [Suc i..<n] v = Inr v' \<and>
          v' = v - (\<Sum>j = Suc i..<n. a i j * dst ! j)"
  proof (rule foldE_upt_rule [where P = "\<lambda>k t. t = v - (\<Sum>j = Suc i..<k. a i j * dst ! j)"])
    show "v = v - (\<Sum>j = Suc i..<Suc i. a i j * dst ! j)" by simp
  next
    fix k t
    assume k: "Suc i \<le> k" "k < n" and t: "t = v - (\<Sum>j = Suc i..<k. a i j * dst ! j)"
    have "get R i k = Inr (a i k)" using assms(2) k by simp
    then show "\<exists>t'. subtract_row R dst i k t = Inr t' \<and>
        t' = v - (\<Sum>j = Suc i..<Suc k. a i j * dst ! j)"
      using t k by (simp add: subtract_row_def)
  next
    show "Suc i \<le> n" using assms(1) by simp
  qed
  then show ?thesis by simp
qed

lemma solve_row_value:
  assumes "i < n" "length dst = n" "i < length rhs"
    and "\<forall>j. i \<le> j \<and> j < n \<longrightarrow> get R i j = Inr (a i j)" and "a i i \<noteq> 0"
  shows "solve_row R rhs n i dst =
           Inr (dst[i := (rhs ! i - (\<Sum>j = Suc i..<n. a i j * dst ! j)) / a i i])"
proof -
  have "foldE (subtract_row R dst i) [i + 1..<n] (rhs ! i) =
      Inr (rhs ! i - (\<Sum>j = Suc i..<n. a i j * dst ! j))"
    using assms(1,4) by (intro subtract_rows) auto
  moreover have "get R i i = Inr (a i i)" using assms(1,4) by simp
  ultimately show ?thesis
    using assms(3,5) by (simp add: solve_row_def read_at_def)
qed

lemma backward_substitution_rows:
  assumes "length dst = n" "n \<le> length rhs"
    and "\<forall>i<n. \<forall>j<n. get R i j = Inr (a i j)" and "\<forall>i<n. a i i \<noteq> 0"
  shows "\<exists>x. backward_substitution R dst rhs = Inr x \<and> solves_rows a rhs n 0 x"
proof -
  have "\<exists>x. foldE (solve_row R rhs n) (rev [0..<n]) dst = Inr x \<and> solves_rows a rhs n 0 x"
  proof (rule foldE_down_rule [where P = "solves_rows a rhs n"])
    show "solves_rows a rhs n n dst" using assms(1) by (simp add: solves_rows_def)
  next
    fix k t
    assume k: "k < n" and t: "solves_rows a rhs n (Suc k) t"
    let ?v = "(rhs ! k - (\<Sum>j = Suc k..<n. a k j * t ! j)) / a k k"
    let ?t' = "t[k := ?v]"
    have len: "length t = n" using t by (simp add: solves_rows_def)
    have step: "solve_row R rhs n k t = Inr ?t'"
      using k len assms(2,3,4) by (intro solve_row_value) auto
    have same: "(\<Sum>j = Suc i..<n. a i j * ?t' ! j) = (\<Sum>j = Suc i..<n. a i j * t ! j)"
      if "k \<le> i" for i
      using that by (intro sum.cong) auto
    have "?t' ! i = (rhs ! i - (\<Sum>j = Suc i..<n. a i j * ?t' ! j)) / a i i"
      if i: "k \<le> i \<and> i < n" for i
    proof (cases "i = k")
      case True
      then show ?thesis using same [of k] len k by simp
    next
      case False
      then have "Suc k \<le> i" using i by simp
      then have "t ! i = (rhs ! i - (\<Sum>j = Suc i..<n. a i j * t ! j)) / a i i"
        using t i by (simp add: solves_rows_def)
      then show ?thesis using same [of i] i False by simp
    qed
    then have "solves_rows a rhs n k ?t'" using len by (simp add: solves_rows_def)
    then show "\<exists>t'. solve_row R rhs n k t = Inr t' \<and> solves_rows a rhs n k t'"
      using step by blast
  qed
  then show ?thesis using assms(1) by (simp add: backward_substitution_def)
qed

lemma upper_triangular_product:
  assumes "i < n" and "\<forall>j<i. a i j = 0" and "a i i \<noteq> 0"
    and "x ! i = (r - (\<Sum>j = Suc i..<n. a i j * x ! j)) / a i i"
  shows "(\<Sum>j<n. a i j * x ! j) = (r::real)"
proof -
  have split: "{..<n} = {..<i} \<union> {i} \<union> {Suc i..<n}" using assms(1) by auto
  have "(\<Sum>j<n. a i j * x ! j) =
      (\<Sum>j<i. a i j * x ! j) + a i i * x ! i + (\<Sum>j = Suc i..<n. a i j * x ! j)"
  proof -
    have "(\<Sum>j\<in>{..<i} \<union> {i} \<union> {Suc i..<n}. a i j * x ! j) =
        (\<Sum>j\<in>{..<i} \<union> {i}. a i j * x ! j) + (\<Sum>j = Suc i..<n. a i j * x ! j)"
      by (rule sum.union_disjoint) auto
    moreover have "(\<Sum>j\<in>{..<i} \<union> {i}. a i j * x ! j) =
        (\<Sum>j<i. a i j * x ! j) + a i i * x ! i"
      by (subst sum.union_disjoint) auto
    ultimately show ?thesis using split by simp
  qed
  moreover have "(\<Sum>j<i. a i j * x ! j) = 0" using assms(2) by simp
  moreover have "a i i * x ! i = r - (\<Sum>j = Suc i..<n. a i j * x ! j)"
    using assms(3,4) by simp
  ultimately show ?thesis by simp
qed

text \<open>
  Claim C3. Let \<open>R\<close> hold the \<open>n\<close>-by-\<open>n\<close> matrix \<open>a\<close> with a non-zero diagonal and let
  \<open>rhs\<close> and \<open>dst\<close> have length \<open>n\<close>. Then \<open>backward_substitution\<close> returns \<open>dst = x\<close>
  with \<open>x[i] = (rhs[i] - \<Sum>j>i. a[i][j] * x[j]) / a[i][i]\<close> for every \<open>i\<close>, and if \<open>a\<close> is
  upper-triangular then \<open>a * x = rhs\<close>, in exact arithmetic.
\<close>

theorem backward_substitution_solves:
  assumes "length dst = n" and "length rhs = n"
    and "\<forall>i<n. \<forall>j<n. get R i j = Inr (a i j)"
    and "\<forall>i<n. a i i \<noteq> 0"
  shows "\<exists>x. backward_substitution R dst rhs = Inr x \<and> length x = n \<and>
           (\<forall>i<n. x ! i = (rhs ! i - (\<Sum>j = Suc i..<n. a i j * x ! j)) / a i i) \<and>
           ((\<forall>i<n. \<forall>j<i. a i j = 0) \<longrightarrow> (\<forall>i<n. (\<Sum>j<n. a i j * x ! j) = rhs ! i))"
proof -
  from backward_substitution_rows [OF assms(1) _ assms(3,4)] assms(2)
  obtain x where x: "backward_substitution R dst rhs = Inr x" "solves_rows a rhs n 0 x"
    by auto
  have rec: "\<forall>i<n. x ! i = (rhs ! i - (\<Sum>j = Suc i..<n. a i j * x ! j)) / a i i"
    and len: "length x = n"
    using x(2) by (simp_all add: solves_rows_def)
  have "(\<Sum>j<n. a i j * x ! j) = rhs ! i" if "\<forall>i<n. \<forall>j<i. a i j = 0" "i < n" for i
    using that rec assms(4) by (intro upper_triangular_product) auto
  then show ?thesis using x(1) len rec by blast
qed






lemma length_add: "length (add s V x) = min (length x) (length V)"
  by (simp add: add_def)

lemma nth_add: "c < length x \<Longrightarrow> c < length V \<Longrightarrow> add s V x ! c = x ! c + s * V ! c"
  by (simp add: add_def)

lemma subtract_rows_multiple_rhs:
  assumes "i < n" and "\<forall>j. i < j \<and> j < n \<longrightarrow> get R i j = Inr (a i j)"
    and "length v = d" and "\<forall>j. i < j \<and> j < n \<longrightarrow> length (dst ! j) = d"
  shows "\<exists>v'. foldE (subtract_row_multiple_rhs R dst i) [i + 1..<n] v = Inr v' \<and>
           (length v' = d \<and> (\<forall>c<d. v' ! c = v ! c - (\<Sum>j = Suc i..<n. a i j * dst ! j ! c)))"
  unfolding Suc_eq_plus1 [symmetric]
proof (rule foldE_upt_rule [where P = "\<lambda>k t. length t = d \<and>
      (\<forall>c<d. t ! c = v ! c - (\<Sum>j = Suc i..<k. a i j * dst ! j ! c))"])
  show "length v = d \<and> (\<forall>c<d. v ! c = v ! c - (\<Sum>j = Suc i..<Suc i. a i j * dst ! j ! c))"
    using assms(3) by simp
next
  fix k t
  assume k: "Suc i \<le> k" "k < n"
    and t: "length t = d \<and> (\<forall>c<d. t ! c = v ! c - (\<Sum>j = Suc i..<k. a i j * dst ! j ! c))"
  have g: "get R i k = Inr (a i k)" and l: "length (dst ! k) = d"
    using assms(2,4) k by simp_all
  let ?t' = "add (- a i k) (dst ! k) t"
  have "subtract_row_multiple_rhs R dst i k t = Inr ?t'"
    using g by (simp add: subtract_row_multiple_rhs_def)
  moreover have "length ?t' = d" using t l by (simp add: length_add)
  moreover have "\<forall>c<d. ?t' ! c = v ! c - (\<Sum>j = Suc i..<Suc k. a i j * dst ! j ! c)"
    using t l k by (simp add: nth_add)
  ultimately show "\<exists>t'. subtract_row_multiple_rhs R dst i k t = Inr t' \<and>
      (length t' = d \<and> (\<forall>c<d. t' ! c = v ! c - (\<Sum>j = Suc i..<Suc k. a i j * dst ! j ! c)))"
    by simp
next
  show "Suc i \<le> n" using assms(1) by simp
qed

lemma solve_row_multiple_rhs_value:
  assumes "k < n" "length t = n" "k < length rhs" "length (rhs ! k) = d"
    and "\<forall>j. k \<le> j \<and> j < n \<longrightarrow> get R k j = Inr (a k j)" and "a k k \<noteq> 0"
    and "\<forall>j. k < j \<and> j < n \<longrightarrow> length (t ! j) = d"
  shows "\<exists>w. solve_row_multiple_rhs R rhs n k t = Inr (t[k := w]) \<and> length w = d \<and>
           (\<forall>c<d. w ! c = (rhs ! k ! c - (\<Sum>j = Suc k..<n. a k j * t ! j ! c)) / a k k)"
proof -
  from subtract_rows_multiple_rhs [of k n R a "rhs ! k" d t] assms
  obtain v' where v': "foldE (subtract_row_multiple_rhs R t k) [k + 1..<n] (rhs ! k) = Inr v'"
    "length v' = d" "\<forall>c<d. v' ! c = rhs ! k ! c - (\<Sum>j = Suc k..<n. a k j * t ! j ! c)"
    by auto
  let ?w = "equ (1 / a k k) v' (t ! k)"
  have "get R k k = Inr (a k k)" using assms(1,5) by simp
  then have "solve_row_multiple_rhs R rhs n k t = Inr (t[k := ?w])"
    using v'(1) assms(3,6) by (simp add: solve_row_multiple_rhs_def read_at_def)
  moreover have "length ?w = d" using v'(2) by (simp add: equ_def)
  moreover have "\<forall>c<d. ?w ! c = (rhs ! k ! c - (\<Sum>j = Suc k..<n. a k j * t ! j ! c)) / a k k"
    using v'(2,3) by (simp add: equ_def)
  ultimately show ?thesis by blast
qed

lemma backward_substitution_multiple_rhs_rows:
  assumes "length dst = n" "n \<le> length rhs"
    and "\<forall>i<n. \<forall>j<n. get R i j = Inr (a i j)" and "\<forall>i<n. a i i \<noteq> 0"
    and "\<forall>i<n. length (rhs ! i) = d"
  shows "\<exists>X. backward_substitution_multiple_rhs R dst rhs = Inr X \<and>
           solves_rows_multiple_rhs a rhs d n 0 X"
proof -
  have "\<exists>X. foldE (solve_row_multiple_rhs R rhs n) (rev [0..<n]) dst = Inr X \<and>
          solves_rows_multiple_rhs a rhs d n 0 X"
  proof (rule foldE_down_rule [where P = "solves_rows_multiple_rhs a rhs d n"])
    show "solves_rows_multiple_rhs a rhs d n n dst"
      using assms(1) by (simp add: solves_rows_multiple_rhs_def)
  next
    fix k t
    assume k: "k < n" and t: "solves_rows_multiple_rhs a rhs d n (Suc k) t"
    have len: "length t = n" using t by (simp add: solves_rows_multiple_rhs_def)
    have lens: "\<forall>j. k < j \<and> j < n \<longrightarrow> length (t ! j) = d"
      using t by (simp add: solves_rows_multiple_rhs_def)
    from solve_row_multiple_rhs_value [of k n t rhs d R a] k len lens assms(2,3,4,5)
    obtain w where w: "solve_row_multiple_rhs R rhs n k t = Inr (t[k := w])" "length w = d"
      "\<forall>c<d. w ! c = (rhs ! k ! c - (\<Sum>j = Suc k..<n. a k j * t ! j ! c)) / a k k"
      by auto
    let ?t' = "t[k := w]"
    have same: "(\<Sum>j = Suc i..<n. a i j * ?t' ! j ! c) = (\<Sum>j = Suc i..<n. a i j * t ! j ! c)"
      if "k \<le> i" for i c
      using that by (intro sum.cong) auto
    have "length (?t' ! i) = d \<and>
        (\<forall>c<d. ?t' ! i ! c = (rhs ! i ! c - (\<Sum>j = Suc i..<n. a i j * ?t' ! j ! c)) / a i i)"
      if i: "k \<le> i \<and> i < n" for i
    proof (cases "i = k")
      case True
      then show ?thesis using same [of k] len k w(2,3) by simp
    next
      case False
      then have "Suc k \<le> i" using i by simp
      then have "length (t ! i) = d \<and>
          (\<forall>c<d. t ! i ! c = (rhs ! i ! c - (\<Sum>j = Suc i..<n. a i j * t ! j ! c)) / a i i)"
        using t i by (simp add: solves_rows_multiple_rhs_def)
      then show ?thesis using same [of i] i False by simp
    qed
    then have "solves_rows_multiple_rhs a rhs d n k ?t'"
      using len by (simp add: solves_rows_multiple_rhs_def)
    then show "\<exists>t'. solve_row_multiple_rhs R rhs n k t = Inr t' \<and>
        solves_rows_multiple_rhs a rhs d n k t'"
      using w(1) by blast
  qed
  then show ?thesis using assms(1) by (simp add: backward_substitution_multiple_rhs_def)
qed

lemma solves_rows_unique:
  assumes "solves_rows a r n 0 x" and "solves_rows a r n 0 y"
  shows "x = y"
proof -
  have "\<forall>i. n - k \<le> i \<and> i < n \<longrightarrow> x ! i = y ! i" for k
  proof (induction k)
    case 0
    then show ?case by simp
  next
    case (Suc k)
    show ?case
    proof (intro allI impI)
      fix i
      assume i: "n - Suc k \<le> i \<and> i < n"
      have "(\<Sum>j = Suc i..<n. a i j * x ! j) = (\<Sum>j = Suc i..<n. a i j * y ! j)"
        using Suc.IH i by (intro sum.cong) auto
      moreover have "x ! i = (r ! i - (\<Sum>j = Suc i..<n. a i j * x ! j)) / a i i"
        "y ! i = (r ! i - (\<Sum>j = Suc i..<n. a i j * y ! j)) / a i i"
        using assms i by (simp_all add: solves_rows_def)
      ultimately show "x ! i = y ! i" by simp
    qed
  qed
  from this [of n] have "\<forall>i<n. x ! i = y ! i" by simp
  moreover have "length x = n" "length y = n" using assms by (simp_all add: solves_rows_def)
  ultimately show ?thesis by (intro nth_equalityI) simp_all
qed

text \<open>The two routines on \<open>real\<close> return the same components.\<close>

lemma variants_agree_exact:
  assumes "length dst = n" and "length dsts = n" and "length rhs = n"
    and "\<forall>i<n. \<forall>j<n. get R i j = Inr (a i j)"
    and "\<forall>i<n. a i i \<noteq> 0"
    and "\<forall>i<n. length (rhs ! i) = d"
    and "c < d"
  shows "\<exists>X. backward_substitution_multiple_rhs R dst rhs = Inr X \<and> length X = n \<and>
           backward_substitution R dsts (map (\<lambda>v. v ! c) rhs) = Inr (map (\<lambda>v. v ! c) X)"
proof -
  let ?r = "map (\<lambda>v. v ! c) rhs"
  from backward_substitution_multiple_rhs_rows [OF assms(1) _ assms(4,5,6)] assms(3)
  obtain X where X: "backward_substitution_multiple_rhs R dst rhs = Inr X"
    "solves_rows_multiple_rhs a rhs d n 0 X"
    by auto
  from backward_substitution_rows [OF assms(2) _ assms(4,5), of ?r] assms(3)
  obtain x where x: "backward_substitution R dsts ?r = Inr x" "solves_rows a ?r n 0 x"
    by auto
  have len: "length X = n" using X(2) by (simp add: solves_rows_multiple_rhs_def)
  have "solves_rows a ?r n 0 (map (\<lambda>v. v ! c) X)"
    unfolding solves_rows_def
  proof (intro conjI allI impI)
    show "length (map (\<lambda>v. v ! c) X) = n" using len by simp
  next
    fix i
    assume i: "0 \<le> i \<and> i < n"
    have "(\<Sum>j = Suc i..<n. a i j * map (\<lambda>v. v ! c) X ! j) = (\<Sum>j = Suc i..<n. a i j * X ! j ! c)"
      using len by (intro sum.cong) auto
    moreover have "X ! i ! c = (rhs ! i ! c - (\<Sum>j = Suc i..<n. a i j * X ! j ! c)) / a i i"
      using X(2) i assms(7) by (simp add: solves_rows_multiple_rhs_def)
    ultimately show "map (\<lambda>v. v ! c) X ! i =
        (?r ! i - (\<Sum>j = Suc i..<n. a i j * map (\<lambda>v. v ! c) X ! j)) / a i i"
      using i len assms(3) by simp
  qed
  then have "x = map (\<lambda>v. v ! c) X" using x(2) by (intro solves_rows_unique)
  then show ?thesis using X(1) x(1) len by blast
qed

lemma example_entries:
  "\<forall>i<2. \<forall>j<2. get \<lparr>M = 2, data = [2, 1, 0, 4 :: real]\<rparr> i j = Inr ([2, 1, 0, 4] ! (i * 2 + j))"
proof (intro allI impI)
  fix i j :: nat
  assume "i < 2" "j < 2"
  then have "i * 2 + j < 4" by arith
  then show "get \<lparr>M = 2, data = [2, 1, 0, 4 :: real]\<rparr> i j = Inr ([2, 1, 0, 4] ! (i * 2 + j))"
    using \<open>i < 2\<close> \<open>j < 2\<close> by (simp add: get_def read_at_def flat_index_def)
qed

lemma example_diagonal: "\<forall>i<2. [2, 1, 0, 4 :: real] ! (i * 2 + i) \<noteq> 0"
  by (auto simp: less_2_cases_iff)

theorem backward_substitution_solves_witness:
  "get \<lparr>M = 2, data = [2, 1, 0, 4 :: real]\<rparr> 0 0 = Inr 2 \<and>
   get \<lparr>M = 2, data = [2, 1, 0, 4 :: real]\<rparr> 0 1 = Inr 1 \<and>
   get \<lparr>M = 2, data = [2, 1, 0, 4 :: real]\<rparr> 1 0 = Inr 0 \<and>
   get \<lparr>M = 2, data = [2, 1, 0, 4 :: real]\<rparr> 1 1 = Inr 4 \<and>
   (\<exists>x. backward_substitution \<lparr>M = 2, data = [2, 1, 0, 4 :: real]\<rparr> [0, 0] [4, 8] = Inr x \<and>
      length x = 2 \<and>
      x ! 1 = 8 / 4 \<and> x ! 0 = (4 - 1 * x ! 1) / 2 \<and>
      2 * x ! 0 + 1 * x ! 1 = 4 \<and> 0 * x ! 0 + 4 * x ! 1 = 8)"
proof -
  let ?a = "\<lambda>i j. [2, 1, 0, 4 :: real] ! (i * 2 + j)"
  have tri: "\<forall>i<2. \<forall>j<i. ?a i j = 0"
    by (auto simp: less_2_cases_iff)
  from backward_substitution_solves
    [of "[0, 0]" 2 "[4, 8]" "\<lparr>M = 2, data = [2, 1, 0, 4 :: real]\<rparr>" ?a, OF _ _ example_entries example_diagonal]
  obtain x where x: "backward_substitution \<lparr>M = 2, data = [2, 1, 0, 4 :: real]\<rparr> [0, 0] [4, 8] = Inr x"
    "length x = 2"
    "\<forall>i<2. x ! i = ([4, 8] ! i - (\<Sum>j = Suc i..<2. ?a i j * x ! j)) / ?a i i"
    "(\<forall>i<2. \<forall>j<i. ?a i j = 0) \<longrightarrow> (\<forall>i<2. (\<Sum>j<2. ?a i j * x ! j) = [4, 8] ! i)"
    by auto
  have s2: "{..<2::nat} = {0, 1}" "{Suc 0..<2} = {1::nat}" "{Suc 1..<2::nat} = {}" by auto
  have "x ! 1 = 8 / 4" "x ! 0 = (4 - 1 * x ! 1) / 2"
    using x(3) [rule_format, of 1] x(3) [rule_format, of 0] by (simp_all add: s2)
  moreover have p: "\<forall>i<2. (\<Sum>j<2. ?a i j * x ! j) = [4, 8] ! i"
    using x(4) tri by blast
  have "2 * x ! 0 + 1 * x ! 1 = 4" "0 * x ! 0 + 4 * x ! 1 = 8"
    using p [rule_format, of 0] p [rule_format, of 1] by (simp_all add: s2)
  ultimately show ?thesis
    using x(1,2) \<open>2 * x ! 0 + 1 * x ! 1 = 4\<close> \<open>0 * x ! 0 + 4 * x ! 1 = 8\<close>
    by (simp add: get_def read_at_def flat_index_def)
qed



section \<open>The secant approximation of the inverse Jacobian\<close>



lemma sum_list_map2_nth:
  "length xs = n \<Longrightarrow> length ys = n \<Longrightarrow>
   sum_list (map2 f xs ys) = (\<Sum>l<n. f (xs ! l) (ys ! l) :: real)"
  by (simp add: sum_list_sum_nth atLeast0LessThan)


















section \<open>The QR decomposition in exact arithmetic\<close>

subsection \<open>Field vectors of one dimension\<close>

lemma dot_sum: "length x = d \<Longrightarrow> length y = d \<Longrightarrow> dot x y = (\<Sum>c<d. x ! c * y ! c)"
  by (simp add: dot_def sum_list_map2_nth)

lemma dot_commute: "length x = length y \<Longrightarrow> dot x y = dot y x"
  by (simp add: dot_sum [of x "length y" y] dot_sum [of y "length y" x] mult.commute)

lemma length_scale: "length (scale s x) = length x"
  by (simp add: scale_def)

lemma nth_scale: "c < length x \<Longrightarrow> scale s x ! c = x ! c * s"
  by (simp add: scale_def)

lemma set_zero_replicate: "set_zero x = replicate (length x) 0"
  by (simp add: set_zero_def map_replicate_const)

lemma dot_add_right:
  assumes "length w = d" "length x = d" "length V = d"
  shows "dot w (add s V x) = dot w x + s * dot w V"
proof -
  have "dot w (add s V x) = (\<Sum>c<d. w ! c * (x ! c + s * V ! c))"
    using assms by (simp add: dot_sum [of _ d] length_add nth_add)
  also have "\<dots> = (\<Sum>c<d. w ! c * x ! c) + s * (\<Sum>c<d. w ! c * V ! c)"
    by (simp add: distrib_left sum.distrib sum_distrib_left mult.left_commute)
  finally show ?thesis using assms by (simp add: dot_sum [of _ d])
qed

lemma dot_scale_right:
  assumes "length w = d" "length x = d"
  shows "dot w (scale s x) = s * dot w x"
proof -
  have "dot w (scale s x) = (\<Sum>c<d. w ! c * (x ! c * s))"
    using assms by (simp add: dot_sum [of _ d] length_scale nth_scale)
  also have "\<dots> = s * (\<Sum>c<d. w ! c * x ! c)"
    by (simp add: sum_distrib_left mult.assoc mult.left_commute mult.commute)
  finally show ?thesis using assms by (simp add: dot_sum [of _ d])
qed

lemma dot_scale_left:
  assumes "length w = d" "length x = d"
  shows "dot (scale s x) w = s * dot x w"
  using assms dot_scale_right [of w d x s]
  by (simp add: dot_commute [of "scale s x" w] dot_commute [of x w] length_scale)

lemma dot_self_nonneg: "0 \<le> dot x x"
  by (simp add: dot_sum [of x "length x" x] sum_nonneg)

lemma l2_norm_square: "l2_norm x * l2_norm x = dot x x"
  by (simp add: l2_norm_def dot_self_nonneg)

lemma l2_norm_nonneg: "0 \<le> l2_norm x"
  by (simp add: l2_norm_def dot_self_nonneg)

lemma dot_replicate_0: "dot (replicate d 0) (replicate d 0) = 0"
  by (simp add: dot_sum [of _ d])

lemma orthogonalize_step_exact_inv:
  assumes R: "Matrix_inv R" "i < M R" and Q: "i < length Q" "\<forall>k<length Q. length (Q ! k) = d"
    and j: "j < i" and inv: "orth_inv Q R d i j (Qj, Rj)"
  shows "\<exists>s'. orthogonalize_step_exact i j (Qj, Rj) = Inr s' \<and> orth_inv Q R d i (Suc j) s'"
proof -
  define r where "r = dot (Qj ! j) (Qj ! i)"
  have Qj: "length Qj = length Q" "\<forall>k. k \<noteq> i \<longrightarrow> Qj ! k = Q ! k" "length (Qj ! i) = d"
    and Rj: "Matrix_inv Rj" "M Rj = M R"
    and frame: "\<forall>a b. a < M R \<and> b < M R \<and> \<not> (b = i \<and> a < j) \<longrightarrow> entry Rj a b = entry R a b"
    and rec: "\<forall>c<d. Q ! i ! c = Qj ! i ! c + (\<Sum>l<j. entry Rj l i * Q ! l ! c)"
    and orth: "orthonormal_upto Q i \<longrightarrow> (\<forall>l<j. dot (Q ! l) (Qj ! i) = 0)"
    using inv by (simp_all add: orth_inv_def)
  have jj: "Qj ! j = Q ! j" using Qj(2) j by simp
  have lj: "length (Q ! j) = d" using Q j by simp
  have jM: "j < M R" using j R(2) by simp
  from set_Matrix_entry [of Rj j i r] Rj jM R(2)
  obtain R' where R': "set_Matrix Rj r j i = Inr R'" "Matrix_inv R'" "M R' = M R"
    "entry R' j i = r"
    "\<forall>a b. a < M R \<and> b < M R \<and> (a, b) \<noteq> (j, i) \<longrightarrow> entry R' a b = entry Rj a b"
    by auto
  let ?v = "add (- r) (Q ! j) (Qj ! i)"
  let ?Q' = "Qj[i := ?v]"
  have step: "orthogonalize_step_exact i j (Qj, Rj) = Inr (?Q', R')"
    using R'(1) by (simp add: r_def jj Let_def)
  have lv: "length ?v = d" using Qj(3) lj by (simp add: length_add)
  have Qi: "?Q' ! i = ?v" using Qj(1) Q(1) by simp
  have f1: "length ?Q' = length Q" using Qj(1) by simp
  have f2: "\<forall>k. k \<noteq> i \<longrightarrow> ?Q' ! k = Q ! k" using Qj(2) by simp
  have f3: "\<forall>a b. a < M R \<and> b < M R \<and> \<not> (b = i \<and> a < Suc j) \<longrightarrow> entry R' a b = entry R a b"
  proof (intro allI impI)
    fix a b
    assume ab: "a < M R \<and> b < M R \<and> \<not> (b = i \<and> a < Suc j)"
    then have "(a, b) \<noteq> (j, i)" by auto
    then have "entry R' a b = entry Rj a b" using R'(5) ab by simp
    moreover have "\<not> (b = i \<and> a < j)" using ab by auto
    ultimately show "entry R' a b = entry R a b" using frame ab by simp
  qed
  have f4: "\<forall>c<d. Q ! i ! c = ?v ! c + (\<Sum>l<Suc j. entry R' l i * Q ! l ! c)"
  proof (intro allI impI)
    fix c
    assume c: "c < d"
    have "(\<Sum>l<j. entry R' l i * Q ! l ! c) = (\<Sum>l<j. entry Rj l i * Q ! l ! c)"
    proof (rule sum.cong)
      fix l
      assume "l \<in> {..<j}"
      then have "l < M R \<and> i < M R \<and> (l, i) \<noteq> (j, i)" using jM R(2) by auto
      then show "entry R' l i * Q ! l ! c = entry Rj l i * Q ! l ! c" using R'(5) by simp
    qed simp
    moreover have "?v ! c = Qj ! i ! c - r * Q ! j ! c"
      using c Qj(3) lj by (simp add: nth_add)
    ultimately show "Q ! i ! c = ?v ! c + (\<Sum>l<Suc j. entry R' l i * Q ! l ! c)"
      using rec c R'(4) by simp
  qed
  have f5: "\<forall>l<Suc j. dot (Q ! l) ?v = 0" if on: "orthonormal_upto Q i"
  proof (intro allI impI)
    fix l
    assume l: "l < Suc j"
    have ll: "length (Q ! l) = d" using Q j l by simp
    have d: "dot (Q ! l) ?v = dot (Q ! l) (Qj ! i) - r * dot (Q ! l) (Q ! j)"
      using dot_add_right [of "Q ! l" d "Qj ! i" "Q ! j" "- r"] ll Qj(3) lj by simp
    show "dot (Q ! l) ?v = 0"
    proof (cases "l = j")
      case True
      have "dot (Q ! j) (Q ! j) = 1" using on j by (simp add: orthonormal_upto_def)
      then show ?thesis using d True by (simp add: r_def jj)
    next
      case False
      then have lj': "l < j" using l by simp
      then have "dot (Q ! l) (Q ! j) = 0" using on j False by (simp add: orthonormal_upto_def)
      moreover have "dot (Q ! l) (Qj ! i) = 0" using orth on lj' by simp
      ultimately show ?thesis using d by simp
    qed
  qed
  have "orth_inv Q R d i (Suc j) (?Q', R')"
    unfolding orth_inv_def prod.case Qi
    using f1 f2 lv R'(2,3) f3 f4 f5 by blast
  then show ?thesis using step by blast
qed

lemma orthogonalize_exact_inv:
  assumes "Matrix_inv R" "i < M R" "i < length Q" "\<forall>k<length Q. length (Q ! k) = d"
  shows "\<exists>s. orthogonalize_exact i (Q, R) = Inr s \<and> orth_inv Q R d i i s"
  unfolding orthogonalize_exact_def
proof (rule foldE_upt_rule [where P = "orth_inv Q R d i"])
  show "orth_inv Q R d i 0 (Q, R)"
    using assms by (simp add: orth_inv_def)
next
  fix j t
  assume j: "0 \<le> j" "j < i" and t: "orth_inv Q R d i j t"
  obtain Qj Rj where "t = (Qj, Rj)" by (cases t)
  then show "\<exists>t'. orthogonalize_step_exact i j t = Inr t' \<and> orth_inv Q R d i (Suc j) t'"
    using orthogonalize_step_exact_inv [OF assms j(2)] t by simp
qed simp

lemma clear_column_inv:
  assumes "Matrix_inv R" "i < M R"
  shows "\<exists>R1. clear_column i R = Inr R1 \<and>
           (Matrix_inv R1 \<and> M R1 = M R \<and> (\<forall>j<i. entry R1 j i = 0) \<and>
            (\<forall>a b. a < M R \<and> b < M R \<and> \<not> (b = i \<and> a < i) \<longrightarrow> entry R1 a b = entry R a b))"
  unfolding clear_column_def
proof (rule foldE_upt_rule [where P = "\<lambda>j R1. Matrix_inv R1 \<and> M R1 = M R \<and>
      (\<forall>l<j. entry R1 l i = 0) \<and>
      (\<forall>a b. a < M R \<and> b < M R \<and> \<not> (b = i \<and> a < j) \<longrightarrow> entry R1 a b = entry R a b)"])
  show "Matrix_inv R \<and> M R = M R \<and> (\<forall>l<0. entry R l i = 0) \<and>
      (\<forall>a b. a < M R \<and> b < M R \<and> \<not> (b = i \<and> a < 0) \<longrightarrow> entry R a b = entry R a b)"
    using assms by simp
next
  fix j t
  assume j: "0 \<le> j" "j < i"
    and t: "Matrix_inv t \<and> M t = M R \<and> (\<forall>l<j. entry t l i = 0) \<and>
      (\<forall>a b. a < M R \<and> b < M R \<and> \<not> (b = i \<and> a < j) \<longrightarrow> entry t a b = entry R a b)"
  have jM: "j < M R" using j assms(2) by simp
  from set_Matrix_entry [of t j i 0] t jM assms(2)
  obtain t' where t': "set_Matrix t 0 j i = Inr t'" "Matrix_inv t'" "M t' = M R"
    "entry t' j i = 0"
    "\<forall>a b. a < M R \<and> b < M R \<and> (a, b) \<noteq> (j, i) \<longrightarrow> entry t' a b = entry t a b"
    by auto
  have "\<forall>l<Suc j. entry t' l i = 0"
  proof (intro allI impI)
    fix l
    assume "l < Suc j"
    then show "entry t' l i = 0"
      using t t'(4,5) jM assms(2) by (cases "l = j") auto
  qed
  moreover have "\<forall>a b. a < M R \<and> b < M R \<and> \<not> (b = i \<and> a < Suc j) \<longrightarrow>
      entry t' a b = entry R a b"
  proof (intro allI impI)
    fix a b
    assume ab: "a < M R \<and> b < M R \<and> \<not> (b = i \<and> a < Suc j)"
    then have "(a, b) \<noteq> (j, i)" "\<not> (b = i \<and> a < j)" by auto
    then show "entry t' a b = entry R a b" using t t'(5) ab by simp
  qed
  ultimately show "\<exists>t'. set_Matrix t 0 j i = Inr t' \<and>
      (Matrix_inv t' \<and> M t' = M R \<and> (\<forall>l<Suc j. entry t' l i = 0) \<and>
       (\<forall>a b. a < M R \<and> b < M R \<and> \<not> (b = i \<and> a < Suc j) \<longrightarrow> entry t' a b = entry R a b))"
    using t'(1,2,3) by blast
qed simp

lemma qr_column_exact_drop:
  assumes R: "Matrix_inv R" "i < M R" and Q: "i < length Q" "\<forall>k<length Q. length (Q ! k) = d"
    and o: "orthogonalize_exact i (Q, R) = Inr (Qo, Ro)"
    and test: "l2_norm (Qo ! i) < eps * l2_norm (Q ! i)"
  shows "\<exists>R'. qr_column_exact eps i (Q, R) = Inr (Qo[i := set_zero (Qo ! i)], R') \<and>
           Matrix_inv R' \<and> M R' = M R \<and> (\<forall>j<i. entry R' j i = 0) \<and> entry R' i i = 1 \<and>
           (\<forall>a b. a < M R \<and> b < M R \<and> \<not> (b = i \<and> a \<le> i) \<longrightarrow> entry R' a b = entry R a b)"
proof -
  from orthogonalize_exact_inv [OF R Q] o have inv: "orth_inv Q R d i i (Qo, Ro)" by simp
  then have Ro: "Matrix_inv Ro" "M Ro = M R"
    "\<forall>a b. a < M R \<and> b < M R \<and> \<not> (b = i \<and> a < i) \<longrightarrow> entry Ro a b = entry R a b"
    by (simp_all add: orth_inv_def)
  from clear_column_inv [of Ro i] Ro R(2)
  obtain R1 where R1: "clear_column i Ro = Inr R1" "Matrix_inv R1" "M R1 = M R"
    "\<forall>j<i. entry R1 j i = 0"
    "\<forall>a b. a < M R \<and> b < M R \<and> \<not> (b = i \<and> a < i) \<longrightarrow> entry R1 a b = entry Ro a b"
    by auto
  from set_Matrix_entry [of R1 i i 1] R1 R(2)
  obtain R2 where R2: "set_Matrix R1 1 i i = Inr R2" "Matrix_inv R2" "M R2 = M R"
    "entry R2 i i = 1"
    "\<forall>a b. a < M R \<and> b < M R \<and> (a, b) \<noteq> (i, i) \<longrightarrow> entry R2 a b = entry R1 a b"
    by auto
  have "qr_column_exact eps i (Q, R) = Inr (Qo[i := set_zero (Qo ! i)], R2)"
    using o test R1(1) R2(1) by (simp add: qr_column_exact_def Let_def)
  moreover have "\<forall>j<i. entry R2 j i = 0"
    using R1(4) R2(5) R(2) by auto
  moreover have "\<forall>a b. a < M R \<and> b < M R \<and> \<not> (b = i \<and> a \<le> i) \<longrightarrow>
      entry R2 a b = entry R a b"
  proof (intro allI impI)
    fix a b
    assume ab: "a < M R \<and> b < M R \<and> \<not> (b = i \<and> a \<le> i)"
    then have "(a, b) \<noteq> (i, i)" "\<not> (b = i \<and> a < i)" by auto
    then show "entry R2 a b = entry R a b" using R2(5) R1(5) Ro(3) ab by simp
  qed
  ultimately show ?thesis using R2(2,3,4) by blast
qed

lemma qr_column_exact_keep:
  assumes R: "Matrix_inv R" "i < M R" and Q: "i < length Q" "\<forall>k<length Q. length (Q ! k) = d"
    and o: "orthogonalize_exact i (Q, R) = Inr (Qo, Ro)"
    and test: "\<not> l2_norm (Qo ! i) < eps * l2_norm (Q ! i)"
  shows "l2_norm (Qo ! i) = 0 \<longrightarrow> qr_column_exact eps i (Q, R) = Inl NonFinite"
    and "l2_norm (Qo ! i) \<noteq> 0 \<longrightarrow>
      (\<exists>R'. qr_column_exact eps i (Q, R) = Inr (Qo[i := scale (1 / l2_norm (Qo ! i)) (Qo ! i)], R') \<and>
           Matrix_inv R' \<and> M R' = M R \<and> entry R' i i = l2_norm (Qo ! i) \<and>
           (\<forall>a b. a < M R \<and> b < M R \<and> (a, b) \<noteq> (i, i) \<longrightarrow> entry R' a b = entry Ro a b))"
proof -
  from orthogonalize_exact_inv [OF R Q] o have inv: "orth_inv Q R d i i (Qo, Ro)" by simp
  then have Ro: "Matrix_inv Ro" "M Ro = M R" by (simp_all add: orth_inv_def)
  from set_Matrix_entry [of Ro i i "l2_norm (Qo ! i)"] Ro R(2)
  obtain R1 where R1: "set_Matrix Ro (l2_norm (Qo ! i)) i i = Inr R1" "Matrix_inv R1"
    "M R1 = M R" "entry R1 i i = l2_norm (Qo ! i)"
    "\<forall>a b. a < M R \<and> b < M R \<and> (a, b) \<noteq> (i, i) \<longrightarrow> entry R1 a b = entry Ro a b"
    by auto
  have "qr_column_exact eps i (Q, R) = Inl NonFinite" if "l2_norm (Qo ! i) = 0"
    using o test R1(1) that by (simp add: qr_column_exact_def Let_def)
  then show "l2_norm (Qo ! i) = 0 \<longrightarrow> qr_column_exact eps i (Q, R) = Inl NonFinite" ..
  have "qr_column_exact eps i (Q, R) = Inr (Qo[i := scale (1 / l2_norm (Qo ! i)) (Qo ! i)], R1)"
    if "l2_norm (Qo ! i) \<noteq> 0"
    using o test R1(1) that by (simp add: qr_column_exact_def Let_def)
  then show "l2_norm (Qo ! i) \<noteq> 0 \<longrightarrow>
      (\<exists>R'. qr_column_exact eps i (Q, R) = Inr (Qo[i := scale (1 / l2_norm (Qo ! i)) (Qo ! i)], R') \<and>
           Matrix_inv R' \<and> M R' = M R \<and> entry R' i i = l2_norm (Qo ! i) \<and>
           (\<forall>a b. a < M R \<and> b < M R \<and> (a, b) \<noteq> (i, i) \<longrightarrow> entry R' a b = entry Ro a b))"
    using R1(2,3,4,5) by blast
qed

text \<open>What every column step leaves alone.\<close>

lemma qr_column_exact_frame:
  assumes R: "Matrix_inv R" "i < M R" and Q: "i < length Q" "\<forall>k<length Q. length (Q ! k) = d"
    and step: "qr_column_exact eps i (Q, R) = Inr (Q', R')"
  shows "length Q' = length Q \<and> (\<forall>k<length Q. length (Q' ! k) = d) \<and>
         (\<forall>k. k \<noteq> i \<longrightarrow> Q' ! k = Q ! k) \<and> Matrix_inv R' \<and> M R' = M R \<and>
         (\<forall>a b. a < M R \<and> b < M R \<and> \<not> (b = i \<and> a \<le> i) \<longrightarrow> entry R' a b = entry R a b)"
proof -
  from orthogonalize_exact_inv [OF R Q] obtain Qo Ro
    where o: "orthogonalize_exact i (Q, R) = Inr (Qo, Ro)" and inv: "orth_inv Q R d i i (Qo, Ro)"
    by auto
  have Qo: "length Qo = length Q" "\<forall>k. k \<noteq> i \<longrightarrow> Qo ! k = Q ! k" "length (Qo ! i) = d"
    and Ro: "\<forall>a b. a < M R \<and> b < M R \<and> \<not> (b = i \<and> a < i) \<longrightarrow> entry Ro a b = entry R a b"
    using inv by (simp_all add: orth_inv_def)
  have dims: "\<forall>k<length Q. length (Qo[i := v] ! k) = d" if "length v = d" for v
    using that Qo Q by (auto simp: nth_list_update)
  show ?thesis
  proof (cases "l2_norm (Qo ! i) < eps * l2_norm (Q ! i)")
    case True
    from qr_column_exact_drop [OF R Q o True] step
    have "Q' = Qo[i := set_zero (Qo ! i)]" "Matrix_inv R'" "M R' = M R"
      "\<forall>a b. a < M R \<and> b < M R \<and> \<not> (b = i \<and> a \<le> i) \<longrightarrow> entry R' a b = entry R a b"
      by auto
    then show ?thesis
      using Qo dims [of "set_zero (Qo ! i)"] by (simp add: set_zero_replicate)
  next
    case False
    from qr_column_exact_keep [OF R Q o False] step
    have nz: "l2_norm (Qo ! i) \<noteq> 0" by auto
    with qr_column_exact_keep(2) [OF R Q o False] step
    have "Q' = Qo[i := scale (1 / l2_norm (Qo ! i)) (Qo ! i)]" "Matrix_inv R'" "M R' = M R"
      "\<forall>a b. a < M R \<and> b < M R \<and> (a, b) \<noteq> (i, i) \<longrightarrow> entry R' a b = entry Ro a b"
      by auto
    moreover have "\<forall>a b. a < M R \<and> b < M R \<and> \<not> (b = i \<and> a \<le> i) \<longrightarrow>
        entry R' a b = entry R a b"
    proof (intro allI impI)
      fix a b
      assume ab: "a < M R \<and> b < M R \<and> \<not> (b = i \<and> a \<le> i)"
      then have "(a, b) \<noteq> (i, i)" "\<not> (b = i \<and> a < i)" by auto
      then show "entry R' a b = entry R a b" using calculation(4) Ro ab by simp
    qed
    ultimately show ?thesis
      using Qo dims [of "scale (1 / l2_norm (Qo ! i)) (Qo ! i)"] by (simp add: length_scale)
  qed
qed

lemma qr_column_exact_inv:
  assumes n: "i < length Q0" "length Q0 \<le> M R0"
    and inv: "qr_inv Q0 R0 d i (Qi, Ri)"
    and step: "qr_column_exact eps i (Qi, Ri) = Inr (Q', R')"
  shows "qr_inv Q0 R0 d (Suc i) (Q', R')"
proof -
  have Qi: "length Qi = length Q0" "\<forall>k<length Qi. length (Qi ! k) = d"
      "\<forall>k. i \<le> k \<longrightarrow> Qi ! k = Q0 ! k"
    and Ri: "Matrix_inv Ri" "M Ri = M R0" "i < M Ri"
      "\<forall>a b. a < M R0 \<and> b < M R0 \<and> (i \<le> b \<or> b < a) \<longrightarrow> entry Ri a b = entry R0 a b"
    and math: "(\<forall>k<i. l2_norm (Qi ! k) \<noteq> 0) \<longrightarrow>
           orthonormal_upto Qi i \<and>
           (\<forall>k<i. \<forall>c<d. Q0 ! k ! c = (\<Sum>l\<le>k. entry Ri l k * Qi ! l ! c))"
    using inv n by (simp_all add: qr_inv_def)
  have iQ: "i < length Qi" using n Qi(1) by simp
  note frame = qr_column_exact_frame [OF Ri(1,3) iQ Qi(2) step]
  from orthogonalize_exact_inv [OF Ri(1,3) iQ Qi(2)] obtain Qo Ro
    where o: "orthogonalize_exact i (Qi, Ri) = Inr (Qo, Ro)" and oinv: "orth_inv Qi Ri d i i (Qo, Ro)"
    by auto
  have Qo: "\<forall>k. k \<noteq> i \<longrightarrow> Qo ! k = Qi ! k" "length (Qo ! i) = d" "length Qo = length Qi"
    and Ro: "\<forall>a b. a < M Ri \<and> b < M Ri \<and> \<not> (b = i \<and> a < i) \<longrightarrow> entry Ro a b = entry Ri a b"
    and rec: "\<forall>c<d. Qi ! i ! c = Qo ! i ! c + (\<Sum>l<i. entry Ro l i * Qi ! l ! c)"
    and orth: "orthonormal_upto Qi i \<longrightarrow> (\<forall>l<i. dot (Qi ! l) (Qo ! i) = 0)"
    using oinv by (simp_all add: orth_inv_def)
  have f1: "length Q' = length Q0" "\<forall>k<length Q0. length (Q' ! k) = d"
    using frame Qi(1) by simp_all
  have f2: "\<forall>k. Suc i \<le> k \<longrightarrow> Q' ! k = Q0 ! k"
    using frame Qi(3) by auto
  have f3: "Matrix_inv R'" "M R' = M R0" using frame Ri(2) by simp_all
  have f4: "\<forall>a b. a < M R0 \<and> b < M R0 \<and> (Suc i \<le> b \<or> b < a) \<longrightarrow> entry R' a b = entry R0 a b"
  proof (intro allI impI)
    fix a b
    assume ab: "a < M R0 \<and> b < M R0 \<and> (Suc i \<le> b \<or> b < a)"
    then have "\<not> (b = i \<and> a \<le> i)" "i \<le> b \<or> b < a" by auto
    then show "entry R' a b = entry R0 a b" using frame Ri(2,4) ab by simp
  qed
  have f5: "orthonormal_upto Q' (Suc i) \<and>
      (\<forall>k<Suc i. \<forall>c<d. Q0 ! k ! c = (\<Sum>l\<le>k. entry R' l k * Q' ! l ! c))"
    if nz: "\<forall>k<Suc i. l2_norm (Q' ! k) \<noteq> 0"
  proof -
    have old: "\<forall>k<i. Q' ! k = Qi ! k" using frame by simp
    then have "\<forall>k<i. l2_norm (Qi ! k) \<noteq> 0" using nz by (metis less_Suc_eq)
    then have on: "orthonormal_upto Qi i"
      and rc: "\<forall>k<i. \<forall>c<d. Q0 ! k ! c = (\<Sum>l\<le>k. entry Ri l k * Qi ! l ! c)"
      using math by simp_all
    have kept: "\<not> l2_norm (Qo ! i) < eps * l2_norm (Qi ! i)"
    proof
      assume "l2_norm (Qo ! i) < eps * l2_norm (Qi ! i)"
      from qr_column_exact_drop [OF Ri(1,3) iQ Qi(2) o this] step
      have "Q' = Qo[i := set_zero (Qo ! i)]" by auto
      then have "Q' ! i = replicate d 0"
        using Qo(2,3) iQ by (simp add: set_zero_replicate)
      then have "l2_norm (Q' ! i) = 0" by (simp add: l2_norm_def dot_replicate_0)
      then show False using nz by simp
    qed
    define r where "r = l2_norm (Qo ! i)"
    have r0: "r \<noteq> 0"
      using qr_column_exact_keep(1) [OF Ri(1,3) iQ Qi(2) o kept] step by (auto simp: r_def)
    from qr_column_exact_keep(2) [OF Ri(1,3) iQ Qi(2) o kept] step r0
    have Q': "Q' = Qo[i := scale (1 / r) (Qo ! i)]" and Rii: "entry R' i i = r"
      and R': "\<forall>a b. a < M Ri \<and> b < M Ri \<and> (a, b) \<noteq> (i, i) \<longrightarrow> entry R' a b = entry Ro a b"
      by (auto simp: r_def)
    have Q'i: "Q' ! i = scale (1 / r) (Qo ! i)" using Q' Qo(3) iQ by simp
    have rr: "dot (Qo ! i) (Qo ! i) = r * r" by (simp add: r_def l2_norm_square)
    have lens: "\<forall>l\<le>i. length (Qi ! l) = d" using Qi(2) iQ by simp
    \<comment> \<open>orthonormality\<close>
    have unit: "dot (Q' ! i) (Q' ! i) = 1"
    proof -
      have "dot (Q' ! i) (Q' ! i) = (1 / r) * ((1 / r) * dot (Qo ! i) (Qo ! i))"
        unfolding Q'i
        using dot_scale_left [of "scale (1 / r) (Qo ! i)" d "Qo ! i" "1 / r"]
          dot_scale_right [of "Qo ! i" d "Qo ! i" "1 / r"] Qo(2)
        by (simp add: length_scale)
      then show ?thesis using rr r0 by simp
    qed
    have perp: "dot (Q' ! l) (Q' ! i) = 0 \<and> dot (Q' ! i) (Q' ! l) = 0" if "l < i" for l
    proof -
      have ll: "length (Qi ! l) = d" using lens that by simp
      have "dot (Qi ! l) (Qo ! i) = 0" using orth on that by simp
      then have "dot (Qi ! l) (Q' ! i) = 0"
        unfolding Q'i using dot_scale_right [of "Qi ! l" d "Qo ! i" "1 / r"] ll Qo(2) by simp
      moreover have "dot (Q' ! i) (Qi ! l) = dot (Qi ! l) (Q' ! i)"
        using ll Qo(2) by (intro dot_commute) (simp add: Q'i length_scale)
      ultimately show ?thesis using old that by simp
    qed
    have "orthonormal_upto Q' (Suc i)"
      unfolding orthonormal_upto_def
    proof (intro allI impI)
      fix k l
      assume kl: "k < Suc i" "l < Suc i"
      consider "k = i" "l = i" | "k = i" "l < i" | "k < i" "l = i" | "k < i" "l < i"
        using kl by linarith
      then show "dot (Q' ! k) (Q' ! l) = (if k = l then 1 else 0)"
      proof cases
        case 1
        then show ?thesis using unit by simp
      next
        case 2
        then show ?thesis using perp [of l] by simp
      next
        case 3
        then show ?thesis using perp [of k] by simp
      next
        case 4
        then show ?thesis using on old by (simp add: orthonormal_upto_def)
      qed
    qed
    \<comment> \<open>reconstruction\<close>
    moreover have "Q0 ! k ! c = (\<Sum>l\<le>k. entry R' l k * Q' ! l ! c)" if k: "k < Suc i" and c: "c < d" for k c
    proof (cases "k = i")
      case False
      then have ki: "k < i" using k by simp
      have "(\<Sum>l\<le>k. entry R' l k * Q' ! l ! c) = (\<Sum>l\<le>k. entry Ri l k * Qi ! l ! c)"
      proof (rule sum.cong)
        fix l
        assume "l \<in> {..k}"
        then have l: "l \<le> k" by simp
        then have rng: "l < M Ri \<and> k < M Ri \<and> (l, k) \<noteq> (i, i) \<and> \<not> (k = i \<and> l < i)"
          using ki Ri(3) by auto
        then have "entry R' l k = entry Ri l k" using R' Ro by simp
        moreover have "Q' ! l = Qi ! l" using old l ki by simp
        ultimately show "entry R' l k * Q' ! l ! c = entry Ri l k * Qi ! l ! c" by simp
      qed simp
      then show ?thesis using rc ki c by simp
    next
      case True
      have "(\<Sum>l<i. entry R' l i * Q' ! l ! c) = (\<Sum>l<i. entry Ro l i * Qi ! l ! c)"
      proof (rule sum.cong)
        fix l
        assume "l \<in> {..<i}"
        then have l: "l < i" by simp
        then have "l < M Ri \<and> i < M Ri \<and> (l, i) \<noteq> (i, i)" using Ri(3) by auto
        then have "entry R' l i = entry Ro l i" using R' by simp
        moreover have "Q' ! l = Qi ! l" using old l by simp
        ultimately show "entry R' l i * Q' ! l ! c = entry Ro l i * Qi ! l ! c" by simp
      qed simp
      moreover have "entry R' i i * Q' ! i ! c = Qo ! i ! c"
        using Rii r0 c Qo(2) by (simp add: Q'i nth_scale)
      moreover have "{..i} = insert i {..<i}" by auto
      ultimately have "(\<Sum>l\<le>i. entry R' l i * Q' ! l ! c) =
          Qo ! i ! c + (\<Sum>l<i. entry Ro l i * Qi ! l ! c)"
        by simp
      then show ?thesis using rec c True Qi(3) by simp
    qed
    ultimately show ?thesis by blast
  qed
  show ?thesis
    unfolding qr_inv_def prod.case
    using f1 f2 f3 f4 f5 by blast
qed

lemma qr_loop_exact_inv:
  assumes "Matrix_inv R" "length Q \<le> M R" "\<forall>k<length Q. length (Q ! k) = d"
    and "n \<le> length Q" and "foldE (qr_column_exact eps) [0..<n] (Q, R) = Inr s"
  shows "qr_inv Q R d n s"
  using assms(5)
proof (rule foldE_upt_partial [where P = "qr_inv Q R d"])
  show "qr_inv Q R d 0 (Q, R)"
    using assms(1,3) by (simp add: qr_inv_def orthonormal_upto_def)
next
  fix k t t'
  assume k: "0 \<le> k" "k < n" and t: "qr_inv Q R d k t" and step: "qr_column_exact eps k t = Inr t'"
  obtain Qk Rk Q' R' where "t = (Qk, Rk)" "t' = (Q', R')" by (cases t, cases t')
  then show "qr_inv Q R d (Suc k) t'"
    using qr_column_exact_inv [of k Q R d Qk Rk eps Q' R'] k assms(2,4) t step by simp
qed simp

lemma upt_split: "i < n \<Longrightarrow> [0..<n] = [0..<i] @ i # [Suc i..<n]"
proof -
  assume i: "i < n"
  then have "[0..<n] = [0..<i] @ [i..<n]"
    using upt_add_eq_append [of 0 i "n - i"] by simp
  then show ?thesis using i by (simp add: upt_conv_Cons)
qed

lemma compute_QR_decomposition_exact_split:
  assumes "i < length Q" "compute_QR_decomposition_exact Q R eps = Inr s'"
  shows "\<exists>s1 s2. foldE (qr_column_exact eps) [0..<i] (Q, R) = Inr s1 \<and> qr_column_exact eps i s1 = Inr s2 \<and>
           foldE (qr_column_exact eps) [Suc i..<length Q] s2 = Inr s'"
  using assms(2) unfolding compute_QR_decomposition_exact_def upt_split [OF assms(1)]
  by (auto simp: foldE_append split: sum.splits)

lemma add_zero_vector: "length v = d \<Longrightarrow> add s (replicate d 0) v = v"
  by (intro nth_equalityI) (simp_all add: length_add nth_add)

lemma add_cancel_normalized:
  "r \<noteq> 0 \<Longrightarrow> add (- r) (scale (1 / r) v) v = replicate (length v) 0"
  by (intro nth_equalityI) (simp_all add: length_add length_scale nth_add nth_scale)

lemma orthogonalize_exact_0: "orthogonalize_exact 0 s = Inr s"
  by (simp add: orthogonalize_exact_def)

lemma orthogonalize_exact_1:
  assumes "Matrix_inv R" "1 < M R"
  shows "\<exists>R'. orthogonalize_exact 1 ([w, v], R) = Inr ([w, add (- dot w v) w v], R') \<and>
           Matrix_inv R' \<and> M R' = M R"
proof -
  from set_Matrix_entry [of R 0 1 "dot w v"] assms
  obtain R' where "set_Matrix R (dot w v) 0 1 = Inr R'" "Matrix_inv R'" "M R' = M R"
    by auto
  then show ?thesis by (simp add: orthogonalize_exact_def Let_def)
qed

lemma deflation_identical_exact:
  assumes R: "Matrix_inv R" "2 \<le> M R" and eps: "0 < eps" and v: "l2_norm v \<noteq> 0"
  shows "\<exists>Q' R'. compute_QR_decomposition_exact [v, v] R eps = Inr (Q', R') \<and>
           Q' ! 1 = replicate (length v) 0 \<and> get R' 1 1 = Inr 1 \<and> get R' 0 1 = Inr 0"
proof -
  define d where "d = length v"
  define r where "r = l2_norm v"
  have r: "0 < r" using v l2_norm_nonneg [of v] by (simp add: r_def)
  have dims: "\<forall>k<length [v, v]. length ([v, v] ! k) = d"
    by (simp add: d_def nth_Cons')
  have M: "0 < M R" "1 < M R" using R(2) by simp_all
  \<comment> \<open>column 0\<close>
  have "\<exists>w R1. qr_column_exact eps 0 ([v, v], R) = Inr ([w, v], R1) \<and> Matrix_inv R1 \<and> M R1 = M R \<and>
      length w = d \<and>
      (if r < eps * r then w = replicate d 0 else w = scale (1 / r) v)"
  proof (cases "r < eps * r")
    case True
    from qr_column_exact_drop [OF R(1) M(1) _ dims orthogonalize_exact_0, of eps] True
    show ?thesis by (auto simp: r_def set_zero_replicate d_def)
  next
    case False
    from qr_column_exact_keep(2) [OF R(1) M(1) _ dims orthogonalize_exact_0, of eps] False v
    show ?thesis by (auto simp: r_def length_scale d_def)
  qed
  then obtain w R1 where c0: "qr_column_exact eps 0 ([v, v], R) = Inr ([w, v], R1)"
    and R1: "Matrix_inv R1" "M R1 = M R" and w: "length w = d"
    "if r < eps * r then w = replicate d 0 else w = scale (1 / r) v"
    by blast
  \<comment> \<open>column 1\<close>
  from orthogonalize_exact_1 [of R1 w v] R1 M(2)
  obtain R2 where o: "orthogonalize_exact 1 ([w, v], R1) = Inr ([w, add (- dot w v) w v], R2)"
    by auto
  have test: "l2_norm ([w, add (- dot w v) w v] ! 1) < eps * l2_norm ([w, v] ! 1)"
  proof (cases "r < eps * r")
    case True
    then have "w = replicate d 0" using w(2) by simp
    then have "add (- dot w v) w v = v" by (simp add: add_zero_vector d_def)
    then show ?thesis using True by (simp add: r_def)
  next
    case False
    then have ws: "w = scale (1 / r) v" using w(2) by simp
    have "dot w v = (1 / r) * dot v v"
      unfolding ws by (rule dot_scale_left [of v d v]) (simp_all add: d_def)
    then have "dot w v = r" using r by (simp add: l2_norm_square [symmetric] r_def)
    then have "add (- dot w v) w v = replicate d 0"
      using add_cancel_normalized [of r v] r by (simp add: ws d_def)
    then have "l2_norm ([w, add (- dot w v) w v] ! 1) = 0"
      by (simp add: l2_norm_def dot_replicate_0)
    then show ?thesis using r eps by (simp add: r_def)
  qed
  have dims1: "\<forall>k<length [w, v]. length ([w, v] ! k) = d"
    using w(1) by (simp add: d_def nth_Cons')
  have lo: "length (add (- dot w v) w v) = d" using w(1) by (simp add: length_add d_def)
  from qr_column_exact_drop [of R1 1 "[w, v]" d, OF R1(1) _ _ dims1 o test] M(2) R1(2)
  obtain R' where c1: "qr_column_exact eps 1 ([w, v], R1) =
      Inr ([w, add (- dot w v) w v][1 := set_zero ([w, add (- dot w v) w v] ! 1)], R')"
    and R': "Matrix_inv R'" "M R' = M R1" "\<forall>j<1. entry R' j 1 = 0" "entry R' 1 1 = 1"
    by auto
  let ?Q' = "[w, add (- dot w v) w v][1 := set_zero ([w, add (- dot w v) w v] ! 1)]"
  have "compute_QR_decomposition_exact [v, v] R eps = Inr (?Q', R')"
    using c0 c1 by (simp add: compute_QR_decomposition_exact_def upt_0_2)
  moreover have "?Q' ! 1 = replicate (length v) 0"
    using lo by (simp add: set_zero_replicate d_def)
  moreover have "get R' 1 1 = Inr 1" "get R' 0 1 = Inr 0"
    using get_entry [OF R'(1), of 1 1] get_entry [OF R'(1), of 0 1] R' R1(2) M by simp_all
  ultimately show ?thesis by blast
qed

text \<open>For non-zero columns and a positive threshold the diagonal is non-zero.\<close>

lemma compute_QR_decomposition_exact_diagonal:
  assumes R: "Matrix_inv R" "length Q \<le> M R" and Q: "\<forall>k<length Q. length (Q ! k) = d"
    and eps: "0 < eps" and nz: "\<forall>i<length Q. l2_norm (Q ! i) \<noteq> 0"
  shows "\<exists>Q' R'. compute_QR_decomposition_exact Q R eps = Inr (Q', R') \<and>
           (\<forall>i<length Q. \<exists>x. get R' i i = Inr x \<and> x \<noteq> 0)"
proof -
  define P where "P = (\<lambda>(k::nat) (s::qr_state_exact). case s of (Qk, Rk) \<Rightarrow>
      length Qk = length Q \<and> (\<forall>m<length Q. length (Qk ! m) = d) \<and>
      Matrix_inv Rk \<and> M Rk = M R \<and> (\<forall>m. k \<le> m \<longrightarrow> Qk ! m = Q ! m) \<and>
      (\<forall>j<k. entry Rk j j \<noteq> 0))"
  have "\<exists>s'. foldE (qr_column_exact eps) [0..<length Q] (Q, R) = Inr s' \<and> P (length Q) s'"
  proof (rule foldE_upt_rule [where P = P])
    show "P 0 (Q, R)" using R(1) Q by (simp add: P_def)
  next
    fix k t
    assume k: "0 \<le> k" "k < length Q" and t: "P k t"
    obtain Qk Rk where s: "t = (Qk, Rk)" by (cases t)
    have Qk: "length Qk = length Q" "\<forall>m<length Qk. length (Qk ! m) = d"
      "\<forall>m. k \<le> m \<longrightarrow> Qk ! m = Q ! m"
      and Rk: "Matrix_inv Rk" "M Rk = M R" and diag: "\<forall>j<k. entry Rk j j \<noteq> 0"
      using t s by (simp_all add: P_def)
    have kM: "k < M Rk" "k < length Qk" using k R(2) Rk(2) Qk(1) by simp_all
    from orthogonalize_exact_inv [OF Rk(1) kM Qk(2)] obtain Qo Ro
      where o: "orthogonalize_exact k (Qk, Rk) = Inr (Qo, Ro)" by auto
    have n0: "0 < l2_norm (Qk ! k)"
      using nz k Qk(3) l2_norm_nonneg [of "Q ! k"] by (simp add: less_le)
    have "\<exists>Qn Rn. qr_column_exact eps k (Qk, Rk) = Inr (Qn, Rn) \<and> entry Rn k k \<noteq> 0"
    proof (cases "l2_norm (Qo ! k) < eps * l2_norm (Qk ! k)")
      case True
      from qr_column_exact_drop [OF Rk(1) kM Qk(2) o True] show ?thesis by auto
    next
      case False
      then have "0 < l2_norm (Qo ! k)"
        using n0 eps by (smt (verit) mult_pos_pos)
      with qr_column_exact_keep(2) [OF Rk(1) kM Qk(2) o False] show ?thesis by auto
    qed
    then obtain Qn Rn where step: "qr_column_exact eps k (Qk, Rk) = Inr (Qn, Rn)"
      and d: "entry Rn k k \<noteq> 0"
      by blast
    note frame = qr_column_exact_frame [OF Rk(1) kM Qk(2) step]
    have "\<forall>j<Suc k. entry Rn j j \<noteq> 0"
    proof (intro allI impI)
      fix j
      assume j: "j < Suc k"
      show "entry Rn j j \<noteq> 0"
      proof (cases "j = k")
        case True
        then show ?thesis using d by simp
      next
        case False
        then have "j < M Rk \<and> j < M Rk \<and> \<not> (j = k \<and> j \<le> k)" using j kM by simp
        then have "entry Rn j j = entry Rk j j" using frame by blast
        then show ?thesis using diag j False by simp
      qed
    qed
    then have "P (Suc k) (Qn, Rn)"
      using frame Qk Rk by (simp add: P_def)
    then show "\<exists>t'. qr_column_exact eps k t = Inr t' \<and> P (Suc k) t'"
      using step s by blast
  qed simp
  then obtain Q' R' where run: "compute_QR_decomposition_exact Q R eps = Inr (Q', R')"
    and fin: "Matrix_inv R'" "M R' = M R" "\<forall>j<length Q. entry R' j j \<noteq> 0"
    by (auto simp: compute_QR_decomposition_exact_def P_def)
  have "\<exists>x. get R' i i = Inr x \<and> x \<noteq> 0" if "i < length Q" for i
    using get_entry [OF fin(1), of i i] fin(2,3) that R(2) by simp
  then show ?thesis using run by blast
qed

lemma sqrt_408080401: "sqrt 408080401 = 20201"
  by (rule real_sqrt_unique) simp_all

lemma sqrt_40401: "sqrt 40401 = 201"
  by (rule real_sqrt_unique) simp_all

section \<open>The QR decomposition: what holds for every rounding\<close>

lemma length_add_fp: "length (add_fp rnd s V x) = min (length x) (length V)"
  by (simp add: add_fp_def)

lemma length_scale_fp: "length (scale_fp rnd s x) = length x"
  by (simp add: scale_fp_def)

lemma set_zero_fp_replicate: "set_zero_fp x = replicate (length x) (Fin 0)"
  by (simp add: set_zero_fp_def map_replicate_const)

lemma orthogonalize_frame:
  assumes R: "Matrix_inv R" "i < M R" and Q: "i < length Q" "\<forall>k<length Q. length (Q ! k) = d"
  shows "\<exists>Qo Ro. orthogonalize rnd i (Q, R) = Inr (Qo, Ro) \<and> length Qo = length Q \<and>
           (\<forall>k. k \<noteq> i \<longrightarrow> Qo ! k = Q ! k) \<and> length (Qo ! i) = d \<and>
           Matrix_inv Ro \<and> M Ro = M R \<and>
           (\<forall>a b. a < M R \<and> b < M R \<and> \<not> (b = i \<and> a < i) \<longrightarrow> entry Ro a b = entry R a b)"
proof -
  define P where "P = (\<lambda>(j::nat) (s::qr_state). case s of (Qj, Rj) \<Rightarrow>
      length Qj = length Q \<and> (\<forall>k. k \<noteq> i \<longrightarrow> Qj ! k = Q ! k) \<and> length (Qj ! i) = d \<and>
      Matrix_inv Rj \<and> M Rj = M R \<and>
      (\<forall>a b. a < M R \<and> b < M R \<and> \<not> (b = i \<and> a < j) \<longrightarrow> entry Rj a b = entry R a b))"
  have "\<exists>s. foldE (orthogonalize_step rnd i) [0..<i] (Q, R) = Inr s \<and> P i s"
  proof (rule foldE_upt_rule [where P = P])
    show "P 0 (Q, R)" using R Q by (simp add: P_def)
  next
    fix j t
    assume j: "0 \<le> j" "j < i" and t: "P j t"
    obtain Qj Rj where s: "t = (Qj, Rj)" by (cases t)
    have Qj: "length Qj = length Q" "\<forall>k. k \<noteq> i \<longrightarrow> Qj ! k = Q ! k" "length (Qj ! i) = d"
      and Rj: "Matrix_inv Rj" "M Rj = M R"
      and frame: "\<forall>a b. a < M R \<and> b < M R \<and> \<not> (b = i \<and> a < j) \<longrightarrow> entry Rj a b = entry R a b"
      using t s by (simp_all add: P_def)
    define r where "r = dot_fp rnd (Qj ! j) (Qj ! i)"
    have lj: "length (Qj ! j) = d" using Qj(2) Q j by simp
    have jM: "j < M R" using j R(2) by simp
    from set_Matrix_entry [of Rj j i r] Rj jM R(2)
    obtain R' where R': "set_Matrix Rj r j i = Inr R'" "Matrix_inv R'" "M R' = M R"
      "\<forall>a b. a < M R \<and> b < M R \<and> (a, b) \<noteq> (j, i) \<longrightarrow> entry R' a b = entry Rj a b"
      by auto
    let ?v = "add_fp rnd (uminus_fp r) (Qj ! j) (Qj ! i)"
    have step: "orthogonalize_step rnd i j (Qj, Rj) = Inr (Qj[i := ?v], R')"
      using R'(1) by (simp add: r_def Let_def)
    have lv: "length ?v = d" using Qj(3) lj by (simp add: length_add_fp)
    have "\<forall>a b. a < M R \<and> b < M R \<and> \<not> (b = i \<and> a < Suc j) \<longrightarrow> entry R' a b = entry R a b"
    proof (intro allI impI)
      fix a b
      assume ab: "a < M R \<and> b < M R \<and> \<not> (b = i \<and> a < Suc j)"
      then have "(a, b) \<noteq> (j, i)" "\<not> (b = i \<and> a < j)" by auto
      then show "entry R' a b = entry R a b" using R'(4) frame ab by simp
    qed
    then have "P (Suc j) (Qj[i := ?v], R')"
      using Qj Q(1) lv R'(2,3) by (simp add: P_def)
    then show "\<exists>t'. orthogonalize_step rnd i j t = Inr t' \<and> P (Suc j) t'"
      using step s by blast
  qed simp
  then show ?thesis by (auto simp: orthogonalize_def P_def)
qed

lemma qr_column_dropped:
  assumes R: "Matrix_inv R" "i < M R" and Q: "i < length Q" "\<forall>k<length Q. length (Q ! k) = d"
    and o: "orthogonalize rnd i (Q, R) = Inr (Qo, Ro)"
    and test: "less_fp (l2_norm_fp rnd (Qo ! i)) (times_fp rnd eps (l2_norm_fp rnd (Q ! i)))"
  shows "\<exists>R'. qr_column rnd eps i (Q, R) = Inr (Qo[i := replicate d (Fin 0)], R') \<and>
           length Qo = length Q \<and> (\<forall>k. k \<noteq> i \<longrightarrow> Qo ! k = Q ! k) \<and>
           Matrix_inv R' \<and> M R' = M R \<and> (\<forall>j<i. entry R' j i = Fin 0) \<and> entry R' i i = Fin 1 \<and>
           (\<forall>a b. a < M R \<and> b < M R \<and> \<not> (b = i \<and> a \<le> i) \<longrightarrow> entry R' a b = entry R a b)"
proof -
  from orthogonalize_frame [OF R Q, of rnd] o
  have Qo: "length Qo = length Q" "\<forall>k. k \<noteq> i \<longrightarrow> Qo ! k = Q ! k" "length (Qo ! i) = d"
    and Ro: "Matrix_inv Ro" "M Ro = M R"
    "\<forall>a b. a < M R \<and> b < M R \<and> \<not> (b = i \<and> a < i) \<longrightarrow> entry Ro a b = entry R a b"
    by auto
  from clear_column_inv [of Ro i] Ro R(2)
  obtain R1 where R1: "clear_column i Ro = Inr R1" "Matrix_inv R1" "M R1 = M R"
    "\<forall>j<i. entry R1 j i = 0"
    "\<forall>a b. a < M R \<and> b < M R \<and> \<not> (b = i \<and> a < i) \<longrightarrow> entry R1 a b = entry Ro a b"
    by auto
  from set_Matrix_entry [of R1 i i "Fin 1"] R1 R(2)
  obtain R2 where R2: "set_Matrix R1 (Fin 1) i i = Inr R2" "Matrix_inv R2" "M R2 = M R"
    "entry R2 i i = Fin 1"
    "\<forall>a b. a < M R \<and> b < M R \<and> (a, b) \<noteq> (i, i) \<longrightarrow> entry R2 a b = entry R1 a b"
    by auto
  have "qr_column rnd eps i (Q, R) = Inr (Qo[i := replicate d (Fin 0)], R2)"
    using o test R1(1) R2(1) Qo(3) by (simp add: qr_column_def Let_def set_zero_fp_replicate)
  moreover have "\<forall>j<i. entry R2 j i = Fin 0"
    using R1(4) R2(5) R(2) by (auto simp: zero_number_def)
  moreover have "\<forall>a b. a < M R \<and> b < M R \<and> \<not> (b = i \<and> a \<le> i) \<longrightarrow>
      entry R2 a b = entry R a b"
  proof (intro allI impI)
    fix a b
    assume ab: "a < M R \<and> b < M R \<and> \<not> (b = i \<and> a \<le> i)"
    then have "(a, b) \<noteq> (i, i)" "\<not> (b = i \<and> a < i)" by auto
    then show "entry R2 a b = entry R a b" using R2(5) R1(5) Ro(3) ab by simp
  qed
  ultimately show ?thesis using R2(2,3,4) Qo(1,2) by blast
qed

lemma qr_column_kept:
  assumes R: "Matrix_inv R" "i < M R" and Q: "i < length Q" "\<forall>k<length Q. length (Q ! k) = d"
    and o: "orthogonalize rnd i (Q, R) = Inr (Qo, Ro)"
    and test: "\<not> less_fp (l2_norm_fp rnd (Qo ! i)) (times_fp rnd eps (l2_norm_fp rnd (Q ! i)))"
  shows "\<exists>R'. qr_column rnd eps i (Q, R) =
             Inr (Qo[i := scale_fp rnd (divide_fp rnd (Fin 1) (l2_norm_fp rnd (Qo ! i))) (Qo ! i)],
                  R') \<and>
           length Qo = length Q \<and> (\<forall>k. k \<noteq> i \<longrightarrow> Qo ! k = Q ! k) \<and> length (Qo ! i) = d \<and>
           Matrix_inv R' \<and> M R' = M R \<and> entry R' i i = l2_norm_fp rnd (Qo ! i) \<and>
           (\<forall>a b. a < M R \<and> b < M R \<and> \<not> (b = i \<and> a \<le> i) \<longrightarrow> entry R' a b = entry R a b)"
proof -
  from orthogonalize_frame [OF R Q, of rnd] o
  have Qo: "length Qo = length Q" "\<forall>k. k \<noteq> i \<longrightarrow> Qo ! k = Q ! k" "length (Qo ! i) = d"
    and Ro: "Matrix_inv Ro" "M Ro = M R"
    "\<forall>a b. a < M R \<and> b < M R \<and> \<not> (b = i \<and> a < i) \<longrightarrow> entry Ro a b = entry R a b"
    by auto
  from set_Matrix_entry [of Ro i i "l2_norm_fp rnd (Qo ! i)"] Ro R(2)
  obtain R1 where R1: "set_Matrix Ro (l2_norm_fp rnd (Qo ! i)) i i = Inr R1" "Matrix_inv R1"
    "M R1 = M R" "entry R1 i i = l2_norm_fp rnd (Qo ! i)"
    "\<forall>a b. a < M R \<and> b < M R \<and> (a, b) \<noteq> (i, i) \<longrightarrow> entry R1 a b = entry Ro a b"
    by auto
  have "qr_column rnd eps i (Q, R) =
      Inr (Qo[i := scale_fp rnd (divide_fp rnd (Fin 1) (l2_norm_fp rnd (Qo ! i))) (Qo ! i)], R1)"
    using o test R1(1) by (simp add: qr_column_def Let_def)
  moreover have "\<forall>a b. a < M R \<and> b < M R \<and> \<not> (b = i \<and> a \<le> i) \<longrightarrow>
      entry R1 a b = entry R a b"
  proof (intro allI impI)
    fix a b
    assume ab: "a < M R \<and> b < M R \<and> \<not> (b = i \<and> a \<le> i)"
    then have "(a, b) \<noteq> (i, i)" "\<not> (b = i \<and> a < i)" by auto
    then show "entry R1 a b = entry R a b" using R1(5) Ro(3) ab by simp
  qed
  ultimately show ?thesis using R1(2,3,4) Qo by blast
qed

text \<open>Every column step returns, and what it leaves alone.\<close>

lemma qr_column_frame:
  assumes R: "Matrix_inv R" "i < M R" and Q: "i < length Q" "\<forall>k<length Q. length (Q ! k) = d"
  shows "\<exists>Q' R'. qr_column rnd eps i (Q, R) = Inr (Q', R') \<and> length Q' = length Q \<and>
           (\<forall>k<length Q. length (Q' ! k) = d) \<and> (\<forall>k. k \<noteq> i \<longrightarrow> Q' ! k = Q ! k) \<and>
           Matrix_inv R' \<and> M R' = M R \<and>
           (\<forall>a b. a < M R \<and> b < M R \<and> \<not> (b = i \<and> a \<le> i) \<longrightarrow> entry R' a b = entry R a b)"
proof -
  from orthogonalize_frame [OF R Q, of rnd] obtain Qo Ro
    where o: "orthogonalize rnd i (Q, R) = Inr (Qo, Ro)" by auto
  have dims: "\<forall>k<length Q. length (Qo[i := v] ! k) = d"
    if "length v = d" "length Qo = length Q" "\<forall>k. k \<noteq> i \<longrightarrow> Qo ! k = Q ! k" for v
    using that Q by (auto simp: nth_list_update)
  show ?thesis
  proof (cases "less_fp (l2_norm_fp rnd (Qo ! i)) (times_fp rnd eps (l2_norm_fp rnd (Q ! i)))")
    case True
    from qr_column_dropped [OF R Q o True]
    obtain R' where "qr_column rnd eps i (Q, R) = Inr (Qo[i := replicate d (Fin 0)], R')"
      "length Qo = length Q" "\<forall>k. k \<noteq> i \<longrightarrow> Qo ! k = Q ! k" "Matrix_inv R'" "M R' = M R"
      "\<forall>a b. a < M R \<and> b < M R \<and> \<not> (b = i \<and> a \<le> i) \<longrightarrow> entry R' a b = entry R a b"
      by blast
    then show ?thesis using dims [of "replicate d (Fin 0)"] by auto
  next
    case False
    let ?v = "scale_fp rnd (divide_fp rnd (Fin 1) (l2_norm_fp rnd (Qo ! i))) (Qo ! i)"
    from qr_column_kept [OF R Q o False]
    obtain R' where "qr_column rnd eps i (Q, R) = Inr (Qo[i := ?v], R')"
      "length Qo = length Q" "\<forall>k. k \<noteq> i \<longrightarrow> Qo ! k = Q ! k" "length (Qo ! i) = d"
      "Matrix_inv R'" "M R' = M R"
      "\<forall>a b. a < M R \<and> b < M R \<and> \<not> (b = i \<and> a \<le> i) \<longrightarrow> entry R' a b = entry R a b"
      by blast
    then show ?thesis using dims [of ?v] by (auto simp: length_scale_fp)
  qed
qed

text \<open>
  The columns from \<open>a\<close> on: the loop returns, and leaves the earlier columns of \<open>Q\<close> and
  of \<open>R\<close> alone.
\<close>

lemma qr_columns_frame:
  assumes "Matrix_inv R1" "length Q1 \<le> M R1" "\<forall>k<length Q1. length (Q1 ! k) = d"
    and "a \<le> n" "n \<le> length Q1"
  shows "\<exists>Q' R'. foldE (qr_column rnd eps) [a..<n] (Q1, R1) = Inr (Q', R') \<and>
           length Q' = length Q1 \<and> (\<forall>k<length Q1. length (Q' ! k) = d) \<and>
           Matrix_inv R' \<and> M R' = M R1 \<and>
           (\<forall>i<a. Q' ! i = Q1 ! i \<and> (\<forall>j\<le>i. entry R' j i = entry R1 j i))"
proof -
  define P where "P = (\<lambda>(k::nat) (s::qr_state). case s of (Qk, Rk) \<Rightarrow>
      length Qk = length Q1 \<and> (\<forall>k<length Q1. length (Qk ! k) = d) \<and>
      Matrix_inv Rk \<and> M Rk = M R1 \<and>
      (\<forall>i<a. Qk ! i = Q1 ! i \<and> (\<forall>j\<le>i. entry Rk j i = entry R1 j i)))"
  have "\<exists>s. foldE (qr_column rnd eps) [a..<n] (Q1, R1) = Inr s \<and> P n s"
  proof (rule foldE_upt_rule [where P = P])
    show "P a (Q1, R1)" using assms(1,3) by (simp add: P_def)
  next
    fix k t
    assume k: "a \<le> k" "k < n" and t: "P k t"
    obtain Qk Rk where s: "t = (Qk, Rk)" by (cases t)
    have Qk: "length Qk = length Q1" "\<forall>k<length Qk. length (Qk ! k) = d"
      and Rk: "Matrix_inv Rk" "M Rk = M R1"
      and keep: "\<forall>i<a. Qk ! i = Q1 ! i \<and> (\<forall>j\<le>i. entry Rk j i = entry R1 j i)"
      using t s by (simp_all add: P_def)
    have kM: "k < M Rk" "k < length Qk" using k assms(2,5) Rk(2) Qk(1) by simp_all
    from qr_column_frame [OF Rk(1) kM Qk(2), of rnd eps]
    obtain Qn Rn where step: "qr_column rnd eps k (Qk, Rk) = Inr (Qn, Rn)"
      and Qn: "length Qn = length Qk" "\<forall>m<length Qk. length (Qn ! m) = d"
        "\<forall>m. m \<noteq> k \<longrightarrow> Qn ! m = Qk ! m"
      and Rn: "Matrix_inv Rn" "M Rn = M Rk"
        "\<forall>a b. a < M Rk \<and> b < M Rk \<and> \<not> (b = k \<and> a \<le> k) \<longrightarrow> entry Rn a b = entry Rk a b"
      by blast
    have "Qn ! i = Q1 ! i \<and> (\<forall>j\<le>i. entry Rn j i = entry R1 j i)" if i: "i < a" for i
    proof -
      have ik: "i \<noteq> k" "i < M Rk" using i k kM by simp_all
      have "entry Rn j i = entry R1 j i" if "j \<le> i" for j
      proof -
        have "j < M Rk \<and> i < M Rk \<and> \<not> (i = k \<and> j \<le> k)" using that ik by simp
        then have "entry Rn j i = entry Rk j i" using Rn(3) by blast
        then show ?thesis using keep i that by simp
      qed
      then show ?thesis using Qn(3) ik keep i by simp
    qed
    then have "P (Suc k) (Qn, Rn)"
      using Qn Qk(1) Rn(1,2) Rk(2) by (simp add: P_def)
    then show "\<exists>t'. qr_column rnd eps k t = Inr t' \<and> P (Suc k) t'"
      using step s by blast
  qed (rule assms(4))
  then show ?thesis by (auto simp: P_def)
qed

lemma deflation_general:
  assumes R: "Matrix_inv R" "length Q \<le> M R" and Q: "\<forall>k<length Q. length (Q ! k) = d"
    and i: "i < length Q"
    and pre: "foldE (qr_column rnd eps) [0..<i] (Q, R) = Inr (Qi, Ri)"
    and o: "orthogonalize rnd i (Qi, Ri) = Inr (Qo, Ro)"
    and test: "less_fp (l2_norm_fp rnd (Qo ! i)) (times_fp rnd eps (l2_norm_fp rnd (Qi ! i)))"
  shows "\<exists>Q' R'. compute_QR_decomposition rnd Q R eps = Inr (Q', R') \<and>
           Q' ! i = replicate d (Fin 0) \<and> (\<forall>j<i. get R' j i = Inr (Fin 0)) \<and>
           get R' i i = Inr (Fin 1)"
proof -
  from qr_columns_frame [OF R Q, of 0 i rnd eps] i pre
  have Qi: "length Qi = length Q" "\<forall>k<length Qi. length (Qi ! k) = d"
    and Ri: "Matrix_inv Ri" "M Ri = M R"
    by auto
  have iM: "i < M Ri" "i < length Qi" using i R(2) Ri(2) Qi(1) by simp_all
  from qr_column_dropped [OF Ri(1) iM Qi(2) o test]
  obtain R1 where col: "qr_column rnd eps i (Qi, Ri) = Inr (Qo[i := replicate d (Fin 0)], R1)"
    and Qo: "length Qo = length Qi"
    and R1: "Matrix_inv R1" "M R1 = M Ri" "\<forall>j<i. entry R1 j i = Fin 0" "entry R1 i i = Fin 1"
    by blast
  let ?Q1 = "Qo[i := replicate d (Fin 0)]"
  from qr_column_frame [OF Ri(1) iM Qi(2), of rnd eps] col
  have dims1: "\<forall>k<length ?Q1. length (?Q1 ! k) = d" using Qo by auto
  have len1: "length ?Q1 = length Q" using Qo Qi(1) by simp
  from qr_columns_frame [of R1 ?Q1 d "Suc i" "length ?Q1" rnd eps] R1(1,2) Ri(2) R(2) dims1 len1 i
  obtain Q' R' where rest: "foldE (qr_column rnd eps) [Suc i..<length Q] (?Q1, R1) = Inr (Q', R')"
    and fin: "Matrix_inv R'" "M R' = M R1"
      "\<forall>k<Suc i. Q' ! k = ?Q1 ! k \<and> (\<forall>j\<le>k. entry R' j k = entry R1 j k)"
    by auto
  have run: "compute_QR_decomposition rnd Q R eps = Inr (Q', R')"
    unfolding compute_QR_decomposition_def upt_split [OF i]
    using pre col rest by (simp add: foldE_append)
  have g: "get R' j i = Inr (entry R' j i)" if "j \<le> i" for j
    using that fin(1,2) R1(2) iM(1) by (intro get_entry) simp_all
  have e: "entry R' j i = entry R1 j i" if "j \<le> i" for j
    using fin(3) that by simp
  have "Q' ! i = replicate d (Fin 0)"
    using fin(3) Qo iM(2) by simp
  moreover have "\<forall>j<i. get R' j i = Inr (Fin 0)" using g e R1(3) by simp
  moreover have "get R' i i = Inr (Fin 1)" using g [of i] e [of i] R1(4) by simp
  ultimately show ?thesis using run by blast
qed

section \<open>The rounding \<open>exact\<close>: the run on \<open>number\<close> and the run on \<open>real\<close>\<close>

lemma foldE_sim:
  assumes "foldE f xs s = Inr s'" and "I s"
    and "\<And>x t t'. x \<in> set xs \<Longrightarrow> I t \<Longrightarrow> f x t = Inr t' \<Longrightarrow> g x (h t) = Inr (h t') \<and> I t'"
  shows "foldE g xs (h s) = Inr (h s') \<and> I s'"
  using assms
proof (induction xs arbitrary: s)
  case Nil
  then show ?case by simp
next
  case (Cons y ys)
  from Cons.prems(1) obtain t where t: "f y s = Inr t" "foldE f ys t = Inr s'"
    by (auto split: sum.splits)
  from Cons.prems(3) [of y s t] Cons.prems(2) t(1)
  have g: "g y (h s) = Inr (h t)" "I t" by simp_all
  have "foldE g ys (h t) = Inr (h s') \<and> I s'"
    using t(2) g(2) by (rule Cons.IH) (use Cons.prems(3) in auto)
  then show ?case using g(1) by simp
qed

lemma nth_Fin_vec: "c < length x \<Longrightarrow> Fin_vec x ! c = Fin (x ! c)"
  by (simp add: Fin_vec_def)

lemma length_Fin_vec: "length (Fin_vec x) = length x"
  by (simp add: Fin_vec_def)

lemma dot_fp_exact_from:
  "foldl (\<lambda>s (xi, yi). plus_fp exact s (times_fp exact xi yi)) (Fin s0)
     (zip (map Fin x) (map Fin y)) = Fin (s0 + sum_list (map2 (*) x y))"
proof (induction x arbitrary: y s0)
  case Nil
  then show ?case by simp
next
  case (Cons a x)
  show ?case
  proof (cases y)
    case Nil
    then show ?thesis by simp
  next
    case (Cons b y')
    then show ?thesis using Cons.IH [of "s0 + a * b" y'] by (simp add: exact_def add.assoc)
  qed
qed

lemma dot_fp_exact: "dot_fp exact (Fin_vec x) (Fin_vec y) = Fin (dot x y)"
  using dot_fp_exact_from [of 0 x y] by (simp add: dot_fp_def dot_def Fin_vec_def)

lemma l2_norm_fp_exact: "l2_norm_fp exact (Fin_vec x) = Fin (l2_norm x)"
  using dot_self_nonneg [of x] by (simp add: l2_norm_fp_def l2_norm_def dot_fp_exact exact_def)

lemma add_fp_exact: "add_fp exact (Fin a) (Fin_vec V) (Fin_vec x) = Fin_vec (add a V x)"
  by (simp add: add_fp_def add_def Fin_vec_def zip_map_map exact_def split_def)

lemma scale_fp_exact: "scale_fp exact (Fin s) (Fin_vec x) = Fin_vec (scale s x)"
  by (simp add: scale_fp_def scale_def Fin_vec_def exact_def)

lemma set_zero_fp_exact: "set_zero_fp (Fin_vec x) = Fin_vec (set_zero x)"
  by (simp add: set_zero_fp_def set_zero_def Fin_vec_def)

lemma equ_fp_exact: "equ_fp exact (Fin a) (Fin_vec V) y = Fin_vec (equ a V x)"
  by (simp add: equ_fp_def equ_def Fin_vec_def exact_def)

lemma Fin_Matrix_simps [simp]:
  "M (Fin_Matrix A) = M A" "data (Fin_Matrix A) = map Fin (data A)"
  by (simp_all add: Fin_Matrix_def)

lemma flat_index_Fin [simp]: "flat_index (Fin_Matrix A) i j = flat_index A i j"
  by (simp add: flat_index_def)

lemma Matrix_inv_Fin [simp]: "Matrix_inv (Fin_Matrix A) \<longleftrightarrow> Matrix_inv A"
  by (simp add: Matrix_inv_def)

lemma get_Fin:
  "get (Fin_Matrix A) i j = (case get A i j of Inl e \<Rightarrow> Inl e | Inr v \<Rightarrow> Inr (Fin v))"
  by (simp add: get_def read_at_def)

lemma set_Matrix_Fin:
  "set_Matrix (Fin_Matrix A) (Fin v) i j =
     (case set_Matrix A v i j of Inl e \<Rightarrow> Inl e | Inr A' \<Rightarrow> Inr (Fin_Matrix A'))"
  by (simp add: set_Matrix_def write_at_def flat_index_def Fin_Matrix_def map_update)

lemma clear_column_Fin:
  "clear_column i R = Inr R' \<Longrightarrow> clear_column i (Fin_Matrix R) = Inr (Fin_Matrix R')"
proof -
  assume run: "clear_column i R = Inr R'"
  have "foldE (\<lambda>j R1. set_Matrix R1 0 j i) [0..<i] (Fin_Matrix R) = Inr (Fin_Matrix R') \<and> True"
    using run [unfolded clear_column_def]
  proof (rule foldE_sim [where I = "\<lambda>t. True"])
    fix x t t'
    assume "set_Matrix t (0::real) x i = Inr t'"
    then show "set_Matrix (Fin_Matrix t) 0 x i = Inr (Fin_Matrix t') \<and> True"
      by (simp add: zero_number_def set_Matrix_Fin)
  qed simp
  then show ?thesis by (simp add: clear_column_def)
qed

lemma orthogonalize_step_sim:
  assumes "orthogonalize_step_exact i j (Q, R) = Inr (Q', R')" "i < length Q" "j < length Q"
  shows "orthogonalize_step exact i j (Fin_state (Q, R)) = Inr (Fin_state (Q', R')) \<and>
         length Q' = length Q"
  using assms
  by (auto simp: Let_def dot_fp_exact add_fp_exact set_Matrix_Fin map_update
      split: sum.splits)

lemma orthogonalize_sim:
  assumes "orthogonalize_exact i (Q, R) = Inr (Qo, Ro)" "i < length Q"
  shows "orthogonalize exact i (Fin_state (Q, R)) = Inr (Fin_state (Qo, Ro)) \<and>
         length Qo = length Q"
proof -
  have "foldE (orthogonalize_step exact i) [0..<i] (Fin_state (Q, R)) = Inr (Fin_state (Qo, Ro)) \<and>
      length (fst (Qo, Ro)) = length Q"
    using assms(1) [unfolded orthogonalize_exact_def]
  proof (rule foldE_sim [where I = "\<lambda>t. length (fst t) = length Q"])
    fix x t t'
    assume x: "x \<in> set [0..<i]" and t: "length (fst t) = length Q"
      and step: "orthogonalize_step_exact i x t = Inr t'"
    obtain Qj Rj Q' R' where s: "t = (Qj, Rj)" "t' = (Q', R')" by (cases t, cases t')
    from orthogonalize_step_sim [of i x Qj Rj Q' R'] step x t assms(2) s
    show "orthogonalize_step exact i x (Fin_state t) = Inr (Fin_state t') \<and>
        length (fst t') = length Q"
      by simp
  qed simp
  then show ?thesis by (simp add: orthogonalize_def)
qed

lemma qr_column_sim:
  assumes "qr_column_exact eps i (Q, R) = Inr (Q', R')" "i < length Q"
  shows "qr_column exact (Fin eps) i (Fin_state (Q, R)) = Inr (Fin_state (Q', R')) \<and>
         length Q' = length Q"
proof -
  from assms(1) obtain Qo Ro where o: "orthogonalize_exact i (Q, R) = Inr (Qo, Ro)"
    and n: "normalize_or_drop_exact eps i (l2_norm (Q ! i)) (Qo, Ro) = Inr (Q', R')"
    by (auto simp: qr_column_exact_def Let_def split: sum.splits)
  from orthogonalize_sim [OF o assms(2)]
  have o': "orthogonalize exact i (Fin_state (Q, R)) = Inr (Fin_state (Qo, Ro))"
    and len: "length Qo = length Q" by simp_all
  have iQ: "i < length Qo" using len assms(2) by simp
  have "normalize_or_drop exact (Fin eps) i (Fin (l2_norm (Q ! i))) (Fin_state (Qo, Ro)) =
      Inr (Fin_state (Q', R')) \<and> length Q' = length Q"
  proof (cases "l2_norm (Qo ! i) < eps * l2_norm (Q ! i)")
    case True
    with n obtain R1 where R1: "clear_column i Ro = Inr R1" "set_Matrix R1 1 i i = Inr R'"
      "Q' = Qo[i := set_zero (Qo ! i)]"
      by (auto simp: Let_def split: sum.splits)
    then show ?thesis
      using True iQ len clear_column_Fin [OF R1(1)] set_Matrix_Fin [of R1 1 i i]
      by (simp add: Let_def l2_norm_fp_exact exact_def set_zero_fp_exact map_update)
  next
    case False
    with n have nz: "l2_norm (Qo ! i) \<noteq> 0"
      and R1: "set_Matrix Ro (l2_norm (Qo ! i)) i i = Inr R'"
      "Q' = Qo[i := scale (1 / l2_norm (Qo ! i)) (Qo ! i)]"
      by (auto simp: Let_def split: sum.splits if_splits)
    then show ?thesis
      using False iQ len set_Matrix_Fin [of Ro "l2_norm (Qo ! i)" i i]
      by (simp add: Let_def l2_norm_fp_exact exact_def scale_fp_exact map_update)
  qed
  then show ?thesis
    using o' assms(2) by (simp add: qr_column_def Let_def l2_norm_fp_exact)
qed

lemma qr_columns_sim:
  assumes "foldE (qr_column_exact eps) xs (Q, R) = Inr (Q', R')" "\<forall>x\<in>set xs. x < length Q"
  shows "foldE (qr_column exact (Fin eps)) xs (Fin_state (Q, R)) = Inr (Fin_state (Q', R')) \<and>
         length Q' = length Q"
proof -
  have "foldE (qr_column exact (Fin eps)) xs (Fin_state (Q, R)) = Inr (Fin_state (Q', R')) \<and>
      length (fst (Q', R')) = length Q"
    using assms(1)
  proof (rule foldE_sim [where I = "\<lambda>t. length (fst t) = length Q"])
    fix x t t'
    assume x: "x \<in> set xs" and t: "length (fst t) = length Q"
      and step: "qr_column_exact eps x t = Inr t'"
    obtain Qj Rj Qn Rn where s: "t = (Qj, Rj)" "t' = (Qn, Rn)" by (cases t, cases t')
    from qr_column_sim [of eps x Qj Rj Qn Rn] step x t assms(2) s
    show "qr_column exact (Fin eps) x (Fin_state t) = Inr (Fin_state t') \<and>
        length (fst t') = length Q"
      by simp
  qed simp
  then show ?thesis by simp
qed

text \<open>
  Wherever the run on \<open>real\<close> returns, the run on \<open>number\<close> with the rounding \<open>exact\<close>
  returns the same values.
\<close>

lemma compute_QR_decomposition_exact_sim:
  assumes "compute_QR_decomposition_exact Q R eps = Inr (Q', R')"
  shows "compute_QR_decomposition exact (map Fin_vec Q) (Fin_Matrix R) (Fin eps) =
           Inr (map Fin_vec Q', Fin_Matrix R')"
  using qr_columns_sim [of eps "[0..<length Q]" Q R Q' R'] assms
  by (simp add: compute_QR_decomposition_def compute_QR_decomposition_exact_def)

lemma qr_exact_orthonormal:
  assumes "Matrix_inv R" and "length Q \<le> M R" and "\<forall>k<length Q. length (Q ! k) = d"
    and "\<forall>i<length Q. \<forall>j<i. get R i j = Inr 0"
    and "compute_QR_decomposition_exact Q R eps = Inr (Q', R')"
    and "\<forall>i<length Q. l2_norm (Q' ! i) \<noteq> 0"
  shows "length Q' = length Q \<and>
         (\<forall>i<length Q. \<forall>j<length Q. dot (Q' ! i) (Q' ! j) = (if i = j then 1 else 0)) \<and>
         (\<forall>i<length Q. \<forall>j<i. get R' i j = Inr 0) \<and>
         (\<exists>r. (\<forall>i<length Q. \<forall>j\<le>i. get R' j i = Inr (r j i)) \<and>
              (\<forall>i<length Q. \<forall>c<d. Q ! i ! c = (\<Sum>j\<le>i. r j i * Q' ! j ! c)))"
proof -
  let ?n = "length Q"
  have "qr_inv Q R d ?n (Q', R')"
    using assms(1,2,3) _ assms(5) [unfolded compute_QR_decomposition_exact_def]
    by (rule qr_loop_exact_inv) simp
  then have len: "length Q' = ?n" and R': "Matrix_inv R'" "M R' = M R"
    and low: "\<forall>a b. a < M R \<and> b < M R \<and> (?n \<le> b \<or> b < a) \<longrightarrow> entry R' a b = entry R a b"
    and math: "orthonormal_upto Q' ?n"
      "\<forall>k<?n. \<forall>c<d. Q ! k ! c = (\<Sum>l\<le>k. entry R' l k * Q' ! l ! c)"
    using assms(6) by (simp_all add: qr_inv_def)
  have g: "get R' a b = Inr (entry R' a b)" if "a < ?n" "b < ?n" for a b
    using that assms(2) R' by (intro get_entry) simp_all
  have "get R' i j = Inr 0" if "i < ?n" "j < i" for i j
  proof -
    have "get R i j = Inr (entry R i j)" using that assms(1,2) by (intro get_entry) simp_all
    then have "entry R i j = 0" using assms(4) that by simp
    moreover have "entry R' i j = entry R i j" using low that assms(2) by simp
    ultimately show ?thesis using g [of i j] that by simp
  qed
  moreover have "\<forall>i<?n. \<forall>j\<le>i. get R' j i = Inr (entry R' j i)"
    using g by simp
  ultimately show ?thesis
    using len math by (auto simp: orthonormal_upto_def)
qed

text \<open>
  With the rounding \<open>exact\<close> and finite values, \<open>column_kept\<close> is the failure of the test
  on the real norms, and a non-zero \<open>r_ii\<close>.
\<close>

lemma column_kept_exact:
  assumes "column_kept exact (Fin eps) i (Fin_state (Q, R))"
    and "orthogonalize_exact i (Q, R) = Inr (Qo, Ro)" and "i < length Q"
  shows "\<not> l2_norm (Qo ! i) < eps * l2_norm (Q ! i) \<and> l2_norm (Qo ! i) \<noteq> 0"
proof -
  from orthogonalize_sim [OF assms(2,3)]
  have o: "orthogonalize exact i (Fin_state (Q, R)) = Inr (Fin_state (Qo, Ro))"
    and len: "length Qo = length Q" by simp_all
  show ?thesis
    using assms(1,3) len
    by (simp add: column_kept_def o [simplified] Let_def l2_norm_fp_exact exact_def)
qed

lemma l2_norm_normalized:
  assumes "l2_norm v \<noteq> 0"
  shows "l2_norm (scale (1 / l2_norm v) v) \<noteq> 0"
proof -
  define r where "r = l2_norm v"
  have "dot (scale (1 / r) v) (scale (1 / r) v) = (1 / r) * ((1 / r) * dot v v)"
    using dot_scale_left [of "scale (1 / r) v" "length v" v "1 / r"]
      dot_scale_right [of v "length v" v "1 / r"]
    by (simp add: length_scale)
  also have "\<dots> = 1" using assms by (simp add: l2_norm_square [symmetric] r_def)
  finally have "l2_norm (scale (1 / r) v) * l2_norm (scale (1 / r) v) = 1"
    by (simp add: l2_norm_square)
  then show ?thesis by (auto simp: r_def)
qed

lemma kept_prefix:
  assumes R: "Matrix_inv R" "length Q \<le> M R" and Q: "\<forall>k<length Q. length (Q ! k) = d"
    and kept: "\<forall>i<length Q. \<exists>s. foldE (qr_column exact (Fin eps)) [0..<i]
                  (map Fin_vec Q, Fin_Matrix R) = Inr s \<and> column_kept exact (Fin eps) i s"
    and n: "n \<le> length Q"
  shows "\<exists>Qn Rn. foldE (qr_column_exact eps) [0..<n] (Q, R) = Inr (Qn, Rn) \<and>
           length Qn = length Q \<and> (\<forall>k<n. l2_norm (Qn ! k) \<noteq> 0)"
  using n
proof (induction n)
  case 0
  then show ?case by simp
next
  case (Suc n)
  then obtain Qn Rn where pre: "foldE (qr_column_exact eps) [0..<n] (Q, R) = Inr (Qn, Rn)"
    and nz: "\<forall>k<n. l2_norm (Qn ! k) \<noteq> 0"
    by auto
  have n: "n < length Q" using Suc.prems by simp
  have "qr_inv Q R d n (Qn, Rn)"
    using R Q _ pre by (rule qr_loop_exact_inv) (use n in simp)
  then have Qn: "length Qn = length Q" "\<forall>k<length Qn. length (Qn ! k) = d"
    and Rn: "Matrix_inv Rn" "M Rn = M R"
    by (simp_all add: qr_inv_def)
  have nM: "n < M Rn" "n < length Qn" using n R(2) Rn(2) Qn(1) by simp_all
  from qr_columns_sim [OF pre] n
  have "foldE (qr_column exact (Fin eps)) [0..<n] (map Fin_vec Q, Fin_Matrix R) =
      Inr (Fin_state (Qn, Rn))"
    by simp
  with kept n have k: "column_kept exact (Fin eps) n (Fin_state (Qn, Rn))" by auto
  from orthogonalize_exact_inv [OF Rn(1) nM Qn(2)] obtain Qo Ro
    where o: "orthogonalize_exact n (Qn, Rn) = Inr (Qo, Ro)"
      and oinv: "orth_inv Qn Rn d n n (Qo, Ro)"
    by auto
  have Qo: "\<forall>k. k \<noteq> n \<longrightarrow> Qo ! k = Qn ! k" "length Qo = length Qn"
    using oinv by (simp_all add: orth_inv_def)
  from column_kept_exact [OF k o nM(2)]
  have test: "\<not> l2_norm (Qo ! n) < eps * l2_norm (Qn ! n)" and r0: "l2_norm (Qo ! n) \<noteq> 0"
    by simp_all
  let ?Q' = "Qo[n := scale (1 / l2_norm (Qo ! n)) (Qo ! n)]"
  from qr_column_exact_keep(2) [OF Rn(1) nM Qn(2) o test] r0
  obtain R' where step: "qr_column_exact eps n (Qn, Rn) = Inr (?Q', R')"
    by auto
  have "l2_norm (?Q' ! k) \<noteq> 0" if "k < Suc n" for k
  proof (cases "k = n")
    case True
    then show ?thesis using l2_norm_normalized [OF r0] nM(2) Qo(2) by simp
  next
    case False
    then show ?thesis using that nz Qo(1) by simp
  qed
  moreover have "foldE (qr_column_exact eps) [0..<Suc n] (Q, R) = Inr (?Q', R')"
    using pre step by (simp add: foldE_append)
  moreover have "length ?Q' = length Q" using Qo(2) Qn(1) by simp
  ultimately show ?case by blast
qed

text \<open>
  Claim C5, as amended. Let the input be finite: the columns of \<open>Q\<close> are vectors of reals
  of one dimension \<open>d\<close>, \<open>R\<close> is a matrix of reals, large enough and zero below the diagonal
  (as a fresh matrix is). Let every column be kept, and by a non-zero factor: at every
  column \<open>i\<close>, in the state \<open>s\<close> on entering the iteration \<open>i\<close>, the test
  \<^verbatim>\<open>r_ii < eps * norm_initial\<close> fails and \<open>r_ii\<close> is not zero. Then, in exact arithmetic,
  the factorization returns finite values \<open>(Q', R')\<close>, the columns of \<open>Q'\<close> are pairwise
  orthonormal, \<open>R'\<close> is upper-triangular, and for every \<open>i\<close> the combination of the
  \<open>Q'[j]\<close>, \<open>j \<le> i\<close>, with the coefficients \<open>R'[j][i]\<close> is the \<open>i\<close>-th input vector: no
  column is reordered.
\<close>

theorem compute_QR_decomposition_orthonormal:
  assumes "Matrix_inv R" and "length Q \<le> M R" and "\<forall>k<length Q. length (Q ! k) = d"
    and "\<forall>i<length Q. \<forall>j<i. get R i j = Inr 0"
    and "\<forall>i<length Q. \<exists>s. foldE (qr_column exact (Fin eps)) [0..<i]
            (map Fin_vec Q, Fin_Matrix R) = Inr s \<and> column_kept exact (Fin eps) i s"
  shows "\<exists>Q' R'. compute_QR_decomposition exact (map Fin_vec Q) (Fin_Matrix R) (Fin eps) =
             Inr (map Fin_vec Q', Fin_Matrix R') \<and>
           length Q' = length Q \<and>
           (\<forall>i<length Q. \<forall>j<length Q. dot (Q' ! i) (Q' ! j) = (if i = j then 1 else 0)) \<and>
           (\<forall>i<length Q. \<forall>j<i. get R' i j = Inr 0) \<and>
           (\<exists>r. (\<forall>i<length Q. \<forall>j\<le>i. get R' j i = Inr (r j i)) \<and>
                (\<forall>i<length Q. \<forall>c<d. Q ! i ! c = (\<Sum>j\<le>i. r j i * Q' ! j ! c)))"
proof -
  from kept_prefix [OF assms(1,2,3,5), of "length Q"]
  obtain Q' R' where run: "compute_QR_decomposition_exact Q R eps = Inr (Q', R')"
    and nz: "\<forall>i<length Q. l2_norm (Q' ! i) \<noteq> 0"
    by (auto simp: compute_QR_decomposition_exact_def)
  note math = qr_exact_orthonormal [OF assms(1,2,3,4) run nz]
  note sim = compute_QR_decomposition_exact_sim [OF run]
  show ?thesis
    apply (rule exI [of _ Q'], rule exI [of _ R'])
    apply (rule conjI, rule sim)
    apply (rule math)
    done
qed

text \<open>
  Two identical finite non-zero columns and a positive finite \<open>eps\<close>, in exact arithmetic.
\<close>

lemma deflation_identical:
  assumes "Matrix_inv R" "2 \<le> M R" "0 < eps" "l2_norm v \<noteq> 0"
  shows "\<exists>Q' R'. compute_QR_decomposition exact [Fin_vec v, Fin_vec v] (Fin_Matrix R) (Fin eps) =
             Inr (map Fin_vec Q', Fin_Matrix R') \<and>
           Q' ! 1 = replicate (length v) 0 \<and> get R' 1 1 = Inr 1 \<and> get R' 0 1 = Inr 0"
proof -
  from deflation_identical_exact [OF assms]
  obtain Q' R' where run: "compute_QR_decomposition_exact [v, v] R eps = Inr (Q', R')"
    and res: "Q' ! 1 = replicate (length v) 0" "get R' 1 1 = Inr 1" "get R' 0 1 = Inr 0"
    by blast
  from compute_QR_decomposition_exact_sim [OF run] res show ?thesis by auto
qed

text \<open>
  Claim C4, as amended. For every rounding function: whenever the norm \<open>r_ii\<close> of the
  column \<open>i\<close> after orthogonalization is below \<open>eps * norm_initial\<close>, the decomposition
  returns with \<open>Q[i]\<close> the zero vector, \<open>R[j][i] = 0\<close> for every \<open>j < i\<close> and
  \<open>R[i][i] = 1\<close>. Here \<open>(Qi, Ri)\<close> is the state on entering the iteration \<open>i\<close> and
  \<open>(Qo, Ro)\<close> the state after its first inner loop. In particular, in exact arithmetic,
  for two identical finite non-zero columns \<open>v\<close>, a finite \<open>R\<close> and a positive \<open>e\<close> the
  decomposition returns finite values, with \<open>Q[1] = 0\<close>, \<open>R[1][1] = 1\<close> and
  \<open>R[0][1] = 0\<close>.
\<close>

theorem compute_QR_decomposition_deflation:
  "(Matrix_inv R \<and> length Q \<le> M R \<and> (\<forall>k<length Q. length (Q ! k) = d) \<and> i < length Q \<and>
    foldE (qr_column rnd eps) [0..<i] (Q, R) = Inr (Qi, Ri) \<and>
    orthogonalize rnd i (Qi, Ri) = Inr (Qo, Ro) \<and>
    less_fp (l2_norm_fp rnd (Qo ! i)) (times_fp rnd eps (l2_norm_fp rnd (Qi ! i)))
    \<longrightarrow> (\<exists>Q' R'. compute_QR_decomposition rnd Q R eps = Inr (Q', R') \<and>
           Q' ! i = replicate d (Fin 0) \<and> (\<forall>j<i. get R' j i = Inr (Fin 0)) \<and>
           get R' i i = Inr (Fin 1))) \<and>
   (Matrix_inv R0 \<and> 2 \<le> M R0 \<and> 0 < e \<and> l2_norm v \<noteq> 0
    \<longrightarrow> (\<exists>Q2 R2. compute_QR_decomposition exact [Fin_vec v, Fin_vec v] (Fin_Matrix R0) (Fin e) =
             Inr (map Fin_vec Q2, Fin_Matrix R2) \<and>
           Q2 ! 1 = replicate (length v) 0 \<and> get R2 1 1 = Inr 1 \<and> get R2 0 1 = Inr 0))"
proof (rule conjI)
  show "Matrix_inv R \<and> length Q \<le> M R \<and> (\<forall>k<length Q. length (Q ! k) = d) \<and> i < length Q \<and>
    foldE (qr_column rnd eps) [0..<i] (Q, R) = Inr (Qi, Ri) \<and>
    orthogonalize rnd i (Qi, Ri) = Inr (Qo, Ro) \<and>
    less_fp (l2_norm_fp rnd (Qo ! i)) (times_fp rnd eps (l2_norm_fp rnd (Qi ! i)))
    \<longrightarrow> (\<exists>Q' R'. compute_QR_decomposition rnd Q R eps = Inr (Q', R') \<and>
           Q' ! i = replicate d (Fin 0) \<and> (\<forall>j<i. get R' j i = Inr (Fin 0)) \<and>
           get R' i i = Inr (Fin 1))"
    using deflation_general [of R Q d i rnd eps Qi Ri Qo Ro] by blast
next
  show "Matrix_inv R0 \<and> 2 \<le> M R0 \<and> 0 < e \<and> l2_norm v \<noteq> 0
    \<longrightarrow> (\<exists>Q2 R2. compute_QR_decomposition exact [Fin_vec v, Fin_vec v] (Fin_Matrix R0) (Fin e) =
             Inr (map Fin_vec Q2, Fin_Matrix R2) \<and>
           Q2 ! 1 = replicate (length v) 0 \<and> get R2 1 1 = Inr 1 \<and> get R2 0 1 = Inr 0)"
    using deflation_identical [of R0 e v] by blast
qed

text \<open>
  In exact arithmetic, for finite non-zero columns and a positive threshold the
  decomposition returns finite values and the diagonal of \<open>R\<close> is non-zero.
\<close>

lemma compute_QR_decomposition_diagonal:
  assumes "Matrix_inv R" "length Q \<le> M R" "\<forall>k<length Q. length (Q ! k) = d"
    and "0 < eps" "\<forall>i<length Q. l2_norm (Q ! i) \<noteq> 0"
  shows "\<exists>Q' R'. compute_QR_decomposition exact (map Fin_vec Q) (Fin_Matrix R) (Fin eps) =
             Inr (map Fin_vec Q', Fin_Matrix R') \<and>
           (\<forall>i<length Q. \<exists>x. get R' i i = Inr x \<and> x \<noteq> 0)"
proof -
  from compute_QR_decomposition_exact_diagonal [OF assms]
  obtain Q' R' where run: "compute_QR_decomposition_exact Q R eps = Inr (Q', R')"
    and res: "\<forall>i<length Q. \<exists>x. get R' i i = Inr x \<and> x \<noteq> 0"
    by blast
  from compute_QR_decomposition_exact_sim [OF run] res show ?thesis by blast
qed

section \<open>The rounding of binary64\<close>

text \<open>
  For a magnitude in the range of the normal numbers, \<open>exponent_double\<close> is the binary
  exponent.
\<close>

lemma exponent_double_bounds:
  assumes "2 powi (- 1022) \<le> a" and "a < 2 powi 1024"
  shows "2 powi (exponent_double a) \<le> a \<and> a < 2 powi (exponent_double a + 1)"
proof -
  define f where "f = (\<lambda>(s::int) e. if 2 powi (e + s) \<le> a then e + s else e)"
  define P where "P = (\<lambda>(w::int) e. 2 powi e \<le> a \<and> a < 2 powi (e + w))"
  have st: "P s (f s e)" if "P (2 * s) e" for e s
  proof (cases "2 powi (e + s) \<le> a")
    case True
    have "e + s + s = e + 2 * s" by simp
    then have "(2::real) powi (e + s + s) = 2 powi (e + 2 * s)" by (simp only:)
    then show ?thesis using that True by (simp add: P_def f_def)
  next
    case False
    then show ?thesis using that by (simp add: P_def f_def)
  qed
  have "exponent_double a = fold f [1024, 512, 256, 128, 64, 32, 16, 8, 4, 2, 1] (- 1022)"
    unfolding exponent_double_def f_def ..
  then have unfold: "exponent_double a =
      f 1 (f 2 (f 4 (f 8 (f 16 (f 32 (f 64 (f 128 (f 256 (f 512 (f 1024 (- 1022)))))))))))"
    by (simp only: fold_simps comp_apply id_apply)
  have "a < 2 powi 1026"
  proof -
    have "(2::real) powi 1024 \<le> 2 powi 1026" by (rule power_int_increasing) simp_all
    then show ?thesis using assms(2) by simp
  qed
  then have "P (2 * 1024) (- 1022)" using assms(1) by (simp add: P_def)
  then have "P 1024 (f 1024 (- 1022))" by (rule st)
  then have "P (2 * 512) (f 1024 (- 1022))" by simp
  then have "P 512 (f 512 (f 1024 (- 1022)))" by (rule st)
  then have "P (2 * 256) (f 512 (f 1024 (- 1022)))" by simp
  then have "P 256 (f 256 (f 512 (f 1024 (- 1022))))" by (rule st)
  then have "P (2 * 128) (f 256 (f 512 (f 1024 (- 1022))))" by simp
  then have "P 128 (f 128 (f 256 (f 512 (f 1024 (- 1022)))))" by (rule st)
  then have "P (2 * 64) (f 128 (f 256 (f 512 (f 1024 (- 1022)))))" by simp
  then have "P 64 (f 64 (f 128 (f 256 (f 512 (f 1024 (- 1022))))))" by (rule st)
  then have "P (2 * 32) (f 64 (f 128 (f 256 (f 512 (f 1024 (- 1022))))))" by simp
  then have "P 32 (f 32 (f 64 (f 128 (f 256 (f 512 (f 1024 (- 1022)))))))" by (rule st)
  then have "P (2 * 16) (f 32 (f 64 (f 128 (f 256 (f 512 (f 1024 (- 1022)))))))" by simp
  then have "P 16 (f 16 (f 32 (f 64 (f 128 (f 256 (f 512 (f 1024 (- 1022))))))))" by (rule st)
  then have "P (2 * 8) (f 16 (f 32 (f 64 (f 128 (f 256 (f 512 (f 1024 (- 1022))))))))" by simp
  then have "P 8 (f 8 (f 16 (f 32 (f 64 (f 128 (f 256 (f 512 (f 1024 (- 1022)))))))))"
    by (rule st)
  then have "P (2 * 4) (f 8 (f 16 (f 32 (f 64 (f 128 (f 256 (f 512 (f 1024 (- 1022)))))))))"
    by simp
  then have "P 4 (f 4 (f 8 (f 16 (f 32 (f 64 (f 128 (f 256 (f 512 (f 1024 (- 1022))))))))))"
    by (rule st)
  then have "P (2 * 2) (f 4 (f 8 (f 16 (f 32 (f 64 (f 128 (f 256 (f 512 (f 1024 (- 1022))))))))))"
    by simp
  then have "P 2 (f 2 (f 4 (f 8 (f 16 (f 32 (f 64 (f 128 (f 256 (f 512 (f 1024 (- 1022)))))))))))"
    by (rule st)
  then have "P (2 * 1)
      (f 2 (f 4 (f 8 (f 16 (f 32 (f 64 (f 128 (f 256 (f 512 (f 1024 (- 1022)))))))))))"
    by simp
  then have "P 1 (exponent_double a)" unfolding unfold by (rule st)
  then show ?thesis by (simp add: P_def)
qed

text \<open>
  Below the range of the normal numbers the exponent is that of the subnormal numbers.
\<close>

lemma exponent_double_subnormal:
  assumes "a < 2 powi (- 1022)"
  shows "exponent_double a = - 1022"
proof -
  define f where "f = (\<lambda>(s::int) e. if 2 powi (e + s) \<le> a then e + s else e)"
  have st: "f s (- 1022) = - 1022" if "0 < s" for s
  proof -
    have "(2::real) powi (- 1022) \<le> 2 powi (- 1022 + s)"
      by (rule power_int_increasing) (use that in simp_all)
    then have "\<not> 2 powi (- 1022 + s) \<le> a" using assms by simp
    then show ?thesis by (simp only: f_def if_False)
  qed
  have "exponent_double a = fold f [1024, 512, 256, 128, 64, 32, 16, 8, 4, 2, 1] (- 1022)"
    unfolding exponent_double_def f_def ..
  then have "exponent_double a =
      f 1 (f 2 (f 4 (f 8 (f 16 (f 32 (f 64 (f 128 (f 256 (f 512 (f 1024 (- 1022)))))))))))"
    by (simp only: fold_simps comp_apply id_apply)
  also have "\<dots> = - 1022"
    using st [of 1024] st [of 512] st [of 256] st [of 128] st [of 64] st [of 32] st [of 16]
      st [of 8] st [of 4] st [of 2] st [of 1]
    by simp
  finally show ?thesis .
qed

section \<open>Evaluations\<close>

lemmas round_double_eval = round_double_def exponent_double_def round_to_even_def Let_def

lemma round_double_0: "round_double 0 = Fin 0"
  by (simp add: round_double_eval)

lemma round_double_1: "round_double 1 = Fin 1"
  by (simp add: round_double_eval)

lemma round_double_eps: "round_double (1 / 100) = Fin (5764607523034235 / 2 ^ 59)"
  by (simp add: round_double_eval)

lemma round_double_eps_idem:
  "round_double (5764607523034235 / 2 ^ 59) = Fin (5764607523034235 / 2 ^ 59)"
  by (simp add: round_double_eval)

lemma round_double_tiny: "round_double (1 / 2 ^ 600) = Fin (1 / 2 ^ 600)"
  by (simp add: round_double_eval)

lemma round_double_tiny_square: "round_double (1 / 2 ^ 600 * (1 / 2 ^ 600)) = Fin 0"
  by (simp add: round_double_eval)

lemmas qr_eval = compute_QR_decomposition_def qr_column_def orthogonalize_def clear_column_def
  set_Matrix_def write_at_def flat_index_def l2_norm_fp_def dot_fp_def add_fp_def scale_fp_def
  set_zero_fp_def upt_0_2 Let_def zero_number_def

lemma replicate_4_Fin: "replicate 4 (Fin 0) = [Fin 0, Fin 0, Fin 0, Fin 0]"
  by (simp add: numeral_eq_Suc)

lemma Matrix_new_1: "Matrix_new 1 = Inr \<lparr>M = 1, data = [Fin 0]\<rparr>"
  by (simp add: Matrix_new_iff zero_number_def)

lemma Matrix_new_2: "Matrix_new 2 = Inr \<lparr>M = 2, data = [Fin 0, Fin 0, Fin 0, Fin 0]\<rparr>"
  by (simp add: Matrix_new_iff zero_number_def replicate_4_Fin)

text \<open>
  Claim C1 says that for every list of input vectors, also one that contains a zero vector,
  every diagonal entry of \<open>R\<close> is non-zero after the decomposition and no NaN or Inf is
  produced. For the single column \<open>(0, 0)\<close> and a fresh matrix both norms are 0, the test
  \<open>0 < eps * 0\<close> fails, and the code stores \<open>R[0][0] = 0\<close> and scales \<open>Q[0]\<close> by
  \<open>1 / 0\<close>: the entries of \<open>Q[0]\<close> are NaNs. The same happens at a zero column that
  follows a non-zero one. This is so in binary64 and in exact arithmetic.
\<close>

theorem compute_QR_decomposition_zero_column:
  "Matrix_new 1 = Inr \<lparr>M = 1, data = [Fin 0]\<rparr> \<and>
   compute_QR_decomposition round_double [[Fin 0, Fin 0]] \<lparr>M = 1, data = [Fin 0]\<rparr>
       (eps_default round_double) =
     Inr ([[NaN, NaN]], \<lparr>M = 1, data = [Fin 0]\<rparr>) \<and>
   compute_QR_decomposition exact [[Fin 0, Fin 0]] \<lparr>M = 1, data = [Fin 0]\<rparr>
       (eps_default exact) =
     Inr ([[NaN, NaN]], \<lparr>M = 1, data = [Fin 0]\<rparr>) \<and>
   get \<lparr>M = 1, data = [Fin 0]\<rparr> 0 0 = Inr (Fin 0) \<and>
   Matrix_new 2 = Inr \<lparr>M = 2, data = [Fin 0, Fin 0, Fin 0, Fin 0]\<rparr> \<and>
   compute_QR_decomposition round_double [[Fin 1, Fin 0], [Fin 0, Fin 0]]
       \<lparr>M = 2, data = [Fin 0, Fin 0, Fin 0, Fin 0]\<rparr> (eps_default round_double) =
     Inr ([[Fin 1, Fin 0], [NaN, NaN]], \<lparr>M = 2, data = [Fin 1, Fin 0, Fin 0, Fin 0]\<rparr>) \<and>
   compute_QR_decomposition exact [[Fin 1, Fin 0], [Fin 0, Fin 0]]
       \<lparr>M = 2, data = [Fin 0, Fin 0, Fin 0, Fin 0]\<rparr> (eps_default exact) =
     Inr ([[Fin 1, Fin 0], [NaN, NaN]], \<lparr>M = 2, data = [Fin 1, Fin 0, Fin 0, Fin 0]\<rparr>) \<and>
   get \<lparr>M = 2, data = [Fin 1, Fin 0, Fin 0, Fin 0]\<rparr> 1 1 = Inr (Fin 0)"
proof -
  define e :: real where "e = 5764607523034235 / 2 ^ 59"
  have e: "eps_default round_double = Fin e"
    by (simp add: eps_default_def round_double_eps e_def)
  have e1: "round_double e = Fin e" unfolding e_def by (rule round_double_eps_idem)
  have e2: "\<not> 1 < e" by (simp add: e_def)
  show ?thesis
    unfolding e
    by (simp add: Matrix_new_1 [unfolded One_nat_def] Matrix_new_2 qr_eval round_double_0
        round_double_1 e1 e2 eps_default_def exact_def get_def read_at_def)
qed

text \<open>
  Claim C4 as stated says that two identical non-zero columns give \<open>Q[1] = 0\<close>,
  \<open>R[1][1] = 1\<close>, \<open>R[0][1] = 0\<close> and no NaN or Inf anywhere. In binary64 the square of
  \<open>2 ^ - 600\<close> is rounded to 0: for the two columns \<open>(2 ^ - 600, 0)\<close>, a fresh matrix and
  the default \<open>eps\<close>, both norms of the column 0 are 0, the column is scaled by \<open>1 / 0\<close>,
  and the decomposition ends with \<open>Q[1] = (NaN, NaN)\<close>, \<open>R[1][1] = NaN\<close> and
  \<open>R[0][1] = NaN\<close>.
\<close>

theorem compute_QR_decomposition_identical_columns_underflow:
  "1 / 2 ^ 600 \<noteq> (0::real) \<and>
   round_double (1 / 2 ^ 600) = Fin (1 / 2 ^ 600) \<and>
   Matrix_new 2 = Inr \<lparr>M = 2, data = [Fin 0, Fin 0, Fin 0, Fin 0]\<rparr> \<and>
   compute_QR_decomposition round_double
       [[Fin (1 / 2 ^ 600), Fin 0], [Fin (1 / 2 ^ 600), Fin 0]]
       \<lparr>M = 2, data = [Fin 0, Fin 0, Fin 0, Fin 0]\<rparr> (eps_default round_double) =
     Inr ([[PInf, NaN], [NaN, NaN]], \<lparr>M = 2, data = [Fin 0, NaN, Fin 0, NaN]\<rparr>)"
proof -
  define t :: real where "t = 1 / 2 ^ 600"
  define e :: real where "e = 5764607523034235 / 2 ^ 59"
  have e: "eps_default round_double = Fin e"
    by (simp add: eps_default_def round_double_eps e_def)
  have t0: "0 < t" "t \<noteq> 0" by (simp_all add: t_def)
  have tt: "round_double (t * t) = Fin 0" unfolding t_def by (rule round_double_tiny_square)
  have run: "compute_QR_decomposition round_double [[Fin t, Fin 0], [Fin t, Fin 0]]
       \<lparr>M = 2, data = [Fin 0, Fin 0, Fin 0, Fin 0]\<rparr> (Fin e) =
     Inr ([[PInf, NaN], [NaN, NaN]], \<lparr>M = 2, data = [Fin 0, NaN, Fin 0, NaN]\<rparr>)"
    by (simp add: qr_eval round_double_0 tt t0)
  show ?thesis
    unfolding e
    apply (rule conjI, simp)
    apply (rule conjI, rule round_double_tiny)
    apply (rule conjI, rule Matrix_new_2)
    apply (rule run [unfolded t_def])
    done
qed

lemma fresh_2_inv: "Matrix_inv \<lparr>M = 2, data = [0, 0, 0, 0 :: real]\<rparr>"
  by (simp add: Matrix_inv_def)

lemma Fin_fresh_2:
  "Fin_Matrix \<lparr>M = 2, data = [0, 0, 0, 0]\<rparr> = \<lparr>M = 2, data = [Fin 0, Fin 0, Fin 0, Fin 0]\<rparr>"
  by (simp add: Fin_Matrix_def)

text \<open>
  Claim C5 as stated asks for linearly independent inputs only. The columns \<open>(1, 0)\<close> and
  \<open>(20200, 201)\<close> are linearly independent (the determinant is 201), but after the first is
  projected out the second has norm 201, which is below \<open>eps = 1e-2\<close> times its initial norm
  20201: the column is dropped, and \<open>Q[1]\<close> is the zero vector, not a unit vector.
\<close>

theorem compute_QR_decomposition_drops_independent_column:
  "(1::real) * 201 - 0 * 20200 \<noteq> 0 \<and>
   compute_QR_decomposition exact [[Fin 1, Fin 0], [Fin 20200, Fin 201]]
       \<lparr>M = 2, data = [Fin 0, Fin 0, Fin 0, Fin 0]\<rparr> (eps_default exact) =
     Inr ([[Fin 1, Fin 0], [Fin 0, Fin 0]], \<lparr>M = 2, data = [Fin 1, Fin 0, Fin 0, Fin 1]\<rparr>) \<and>
   dot_fp exact ([[Fin 1, Fin 0], [Fin 0, Fin 0]] ! 1) ([[Fin 1, Fin 0], [Fin 0, Fin 0]] ! 1) =
     Fin 0"
  by (simp add: qr_eval eps_default_def exact_def sqrt_408080401 sqrt_40401)

lemma round_double_m1: "round_double (- 1) = Fin (- 1)"
  by (simp add: round_double_eval)

lemma fresh_2_inv_fp: "Matrix_inv \<lparr>M = 2, data = [Fin 0, Fin 0, Fin 0, Fin 0]\<rparr>"
  by (simp add: Matrix_inv_def)

lemma upt_0_3: "[0..<3] = [0, 1, 2]"
  by (simp add: upt_rec)

lemma fresh_3_inv_fp:
  "Matrix_inv \<lparr>M = 3, data = [Fin 0, Fin 0, Fin 0, Fin 0, Fin 0, Fin 0, Fin 0, Fin 0, Fin 0]\<rparr>"
  by (simp add: Matrix_inv_def)

theorem compute_QR_decomposition_deflation_witness:
  "Matrix_inv \<lparr>M = 2, data = [Fin 0, Fin 0, Fin 0, Fin 0]\<rparr> \<and>
   foldE (qr_column round_double (eps_default round_double)) [0..<1]
       ([[Fin 1, Fin 0], [Fin 1, Fin 0]], \<lparr>M = 2, data = [Fin 0, Fin 0, Fin 0, Fin 0]\<rparr>) =
     Inr ([[Fin 1, Fin 0], [Fin 1, Fin 0]], \<lparr>M = 2, data = [Fin 1, Fin 0, Fin 0, Fin 0]\<rparr>) \<and>
   orthogonalize round_double 1
       ([[Fin 1, Fin 0], [Fin 1, Fin 0]], \<lparr>M = 2, data = [Fin 1, Fin 0, Fin 0, Fin 0]\<rparr>) =
     Inr ([[Fin 1, Fin 0], [Fin 0, Fin 0]], \<lparr>M = 2, data = [Fin 1, Fin 1, Fin 0, Fin 0]\<rparr>) \<and>
   less_fp (l2_norm_fp round_double ([[Fin 1, Fin 0], [Fin 0, Fin 0]] ! 1))
     (times_fp round_double (eps_default round_double)
        (l2_norm_fp round_double ([[Fin 1, Fin 0], [Fin 1, Fin 0]] ! 1))) \<and>
   (\<exists>Q' R'. compute_QR_decomposition round_double [[Fin 1, Fin 0], [Fin 1, Fin 0]]
        \<lparr>M = 2, data = [Fin 0, Fin 0, Fin 0, Fin 0]\<rparr> (eps_default round_double) = Inr (Q', R') \<and>
      Q' ! 1 = replicate 2 (Fin 0) \<and> get R' 0 1 = Inr (Fin 0) \<and> get R' 1 1 = Inr (Fin 1)) \<and>
   Matrix_inv
     \<lparr>M = 3, data = [Fin 0, Fin 0, Fin 0, Fin 0, Fin 0, Fin 0, Fin 0, Fin 0, Fin 0]\<rparr> \<and>
   foldE (qr_column exact (Fin (1 / 100))) [0..<1]
       ([[Fin 3, Fin 4], [Fin 3, Fin 4], [Fin 0, Fin 0]],
        \<lparr>M = 3, data = [Fin 0, Fin 0, Fin 0, Fin 0, Fin 0, Fin 0, Fin 0, Fin 0, Fin 0]\<rparr>) =
     Inr ([[Fin (3 / 5), Fin (4 / 5)], [Fin 3, Fin 4], [Fin 0, Fin 0]],
          \<lparr>M = 3, data = [Fin 5, Fin 0, Fin 0, Fin 0, Fin 0, Fin 0, Fin 0, Fin 0, Fin 0]\<rparr>) \<and>
   orthogonalize exact 1
       ([[Fin (3 / 5), Fin (4 / 5)], [Fin 3, Fin 4], [Fin 0, Fin 0]],
        \<lparr>M = 3, data = [Fin 5, Fin 0, Fin 0, Fin 0, Fin 0, Fin 0, Fin 0, Fin 0, Fin 0]\<rparr>) =
     Inr ([[Fin (3 / 5), Fin (4 / 5)], [Fin 0, Fin 0], [Fin 0, Fin 0]],
          \<lparr>M = 3, data = [Fin 5, Fin 5, Fin 0, Fin 0, Fin 0, Fin 0, Fin 0, Fin 0, Fin 0]\<rparr>) \<and>
   less_fp
     (l2_norm_fp exact ([[Fin (3 / 5), Fin (4 / 5)], [Fin 0, Fin 0], [Fin 0, Fin 0]] ! 1))
     (times_fp exact (Fin (1 / 100))
        (l2_norm_fp exact ([[Fin (3 / 5), Fin (4 / 5)], [Fin 3, Fin 4], [Fin 0, Fin 0]] ! 1))) \<and>
   compute_QR_decomposition exact [[Fin 3, Fin 4], [Fin 3, Fin 4], [Fin 0, Fin 0]]
       \<lparr>M = 3, data = [Fin 0, Fin 0, Fin 0, Fin 0, Fin 0, Fin 0, Fin 0, Fin 0, Fin 0]\<rparr>
       (Fin (1 / 100)) =
     Inr ([[Fin (3 / 5), Fin (4 / 5)], [Fin 0, Fin 0], [NaN, NaN]],
          \<lparr>M = 3, data = [Fin 5, Fin 0, Fin 0, Fin 0, Fin 1, Fin 0, Fin 0, Fin 0, Fin 0]\<rparr>) \<and>
   (\<exists>Q' R'. compute_QR_decomposition exact [[Fin 3, Fin 4], [Fin 3, Fin 4], [Fin 0, Fin 0]]
        \<lparr>M = 3, data = [Fin 0, Fin 0, Fin 0, Fin 0, Fin 0, Fin 0, Fin 0, Fin 0, Fin 0]\<rparr>
        (Fin (1 / 100)) = Inr (Q', R') \<and>
      Q' ! 1 = replicate 2 (Fin 0) \<and> get R' 0 1 = Inr (Fin 0) \<and> get R' 1 1 = Inr (Fin 1)) \<and>
   Matrix_inv \<lparr>M = 2, data = [0, 0, 0, 0 :: real]\<rparr> \<and> l2_norm [3, 4] \<noteq> 0 \<and>
   (\<exists>Q2 R2. compute_QR_decomposition exact [Fin_vec [3, 4], Fin_vec [3, 4]]
        (Fin_Matrix \<lparr>M = 2, data = [0, 0, 0, 0]\<rparr>) (Fin (1 / 100)) =
        Inr (map Fin_vec Q2, Fin_Matrix R2) \<and>
      Q2 ! 1 = replicate 2 0 \<and> get R2 1 1 = Inr 1 \<and> get R2 0 1 = Inr 0)"
proof -
  let ?R0 = "\<lparr>M = 2, data = [Fin 0, Fin 0, Fin 0, Fin 0]\<rparr>"
  let ?Q = "[[Fin 1, Fin 0], [Fin 1, Fin 0]]"
  let ?Ri = "\<lparr>M = 2, data = [Fin 1, Fin 0, Fin 0, Fin 0]\<rparr>"
  let ?Qo = "[[Fin 1, Fin 0], [Fin 0, Fin 0]]"
  let ?Ro = "\<lparr>M = 2, data = [Fin 1, Fin 1, Fin 0, Fin 0]\<rparr>"
  let ?F0 = "\<lparr>M = 2, data = [0, 0, 0, 0 :: real]\<rparr>"
  let ?S0 = "\<lparr>M = 3, data = [Fin 0, Fin 0, Fin 0, Fin 0, Fin 0, Fin 0, Fin 0, Fin 0, Fin 0]\<rparr>"
  let ?P = "[[Fin 3, Fin 4], [Fin 3, Fin 4], [Fin 0, Fin 0]]"
  let ?Pi = "[[Fin (3 / 5), Fin (4 / 5)], [Fin 3, Fin 4], [Fin 0, Fin 0]]"
  let ?Si = "\<lparr>M = 3, data = [Fin 5, Fin 0, Fin 0, Fin 0, Fin 0, Fin 0, Fin 0, Fin 0, Fin 0]\<rparr>"
  let ?Po = "[[Fin (3 / 5), Fin (4 / 5)], [Fin 0, Fin 0], [Fin 0, Fin 0]]"
  let ?So = "\<lparr>M = 3, data = [Fin 5, Fin 5, Fin 0, Fin 0, Fin 0, Fin 0, Fin 0, Fin 0, Fin 0]\<rparr>"
  let ?P' = "[[Fin (3 / 5), Fin (4 / 5)], [Fin 0, Fin 0], [NaN, NaN]]"
  let ?S' = "\<lparr>M = 3, data = [Fin 5, Fin 0, Fin 0, Fin 0, Fin 1, Fin 0, Fin 0, Fin 0, Fin 0]\<rparr>"
  define e :: real where "e = 5764607523034235 / 2 ^ 59"
  have e: "eps_default round_double = Fin e"
    by (simp add: eps_default_def round_double_eps e_def)
  have e1: "round_double e = Fin e" unfolding e_def by (rule round_double_eps_idem)
  have e2: "\<not> 1 < e" "0 < e" by (simp_all add: e_def)
  note rd = round_double_0 round_double_1 round_double_m1 e1 e2
  have h1: "length ?Q \<le> M ?R0" "\<forall>k<length ?Q. length (?Q ! k) = 2" "1 < length ?Q"
    by (simp_all add: nth_Cons')
  have h2: "foldE (qr_column round_double (eps_default round_double)) [0..<1] (?Q, ?R0) =
      Inr (?Q, ?Ri)"
    unfolding e by (simp add: qr_eval rd)
  have h3: "orthogonalize round_double 1 (?Q, ?Ri) = Inr (?Qo, ?Ro)"
    by (simp add: qr_eval rd)
  have h4: "less_fp (l2_norm_fp round_double (?Qo ! 1))
      (times_fp round_double (eps_default round_double) (l2_norm_fp round_double (?Q ! 1)))"
    unfolding e by (simp add: qr_eval rd)
  have k1: "length ?P \<le> M ?S0" "\<forall>k<length ?P. length (?P ! k) = 2" "1 < length ?P"
    by (simp_all add: nth_Cons' All_less_Suc numeral_3_eq_3)
  have k2: "foldE (qr_column exact (Fin (1 / 100))) [0..<1] (?P, ?S0) = Inr (?Pi, ?Si)"
    by (simp add: qr_eval exact_def)
  have k3: "orthogonalize exact 1 (?Pi, ?Si) = Inr (?Po, ?So)"
    by (simp add: qr_eval exact_def)
  have k4: "less_fp (l2_norm_fp exact (?Po ! 1))
      (times_fp exact (Fin (1 / 100)) (l2_norm_fp exact (?Pi ! 1)))"
    by (simp add: qr_eval exact_def)
  have k5: "compute_QR_decomposition exact ?P ?S0 (Fin (1 / 100)) = Inr (?P', ?S')"
    by (simp add: qr_eval exact_def upt_0_3)
  have h6: "(2::nat) \<le> M ?F0" "(0::real) < 1 / 100" "l2_norm [3, 4] \<noteq> 0"
    by (simp_all add: l2_norm_def dot_def)
  note inst = compute_QR_decomposition_deflation
    [of ?R0 ?Q 2 1 round_double "eps_default round_double" ?Q ?Ri ?Qo ?Ro ?F0 "1 / 100" "[3, 4]"]
  note inst3 = compute_QR_decomposition_deflation
    [of ?S0 ?P 2 1 exact "Fin (1 / 100)" ?Pi ?Si ?Po ?So ?F0 "1 / 100" "[3, 4]"]
  have "\<exists>Q' R'. compute_QR_decomposition round_double ?Q ?R0 (eps_default round_double) =
        Inr (Q', R') \<and>
      Q' ! 1 = replicate 2 (Fin 0) \<and> (\<forall>j<1. get R' j 1 = Inr (Fin 0)) \<and> get R' 1 1 = Inr (Fin 1)"
    using inst [THEN conjunct1] fresh_2_inv_fp h1 h2 h3 h4 by blast
  then have a: "\<exists>Q' R'. compute_QR_decomposition round_double ?Q ?R0 (eps_default round_double) =
        Inr (Q', R') \<and>
      Q' ! 1 = replicate 2 (Fin 0) \<and> get R' 0 1 = Inr (Fin 0) \<and> get R' 1 1 = Inr (Fin 1)"
    by auto
  have "\<exists>Q' R'. compute_QR_decomposition exact ?P ?S0 (Fin (1 / 100)) = Inr (Q', R') \<and>
      Q' ! 1 = replicate 2 (Fin 0) \<and> (\<forall>j<1. get R' j 1 = Inr (Fin 0)) \<and> get R' 1 1 = Inr (Fin 1)"
    using inst3 [THEN conjunct1] fresh_3_inv_fp k1 k2 k3 k4 by blast
  then have a3: "\<exists>Q' R'. compute_QR_decomposition exact ?P ?S0 (Fin (1 / 100)) = Inr (Q', R') \<and>
      Q' ! 1 = replicate 2 (Fin 0) \<and> get R' 0 1 = Inr (Fin 0) \<and> get R' 1 1 = Inr (Fin 1)"
    by auto
  have "\<exists>Q2 R2. compute_QR_decomposition exact [Fin_vec [3, 4], Fin_vec [3, 4]] (Fin_Matrix ?F0)
        (Fin (1 / 100)) = Inr (map Fin_vec Q2, Fin_Matrix R2) \<and>
      Q2 ! 1 = replicate (length [3, 4 :: real]) 0 \<and> get R2 1 1 = Inr 1 \<and> get R2 0 1 = Inr 0"
    using inst [THEN conjunct2] fresh_2_inv h6 by blast
  moreover have "length [3, 4 :: real] = 2" by simp
  ultimately have b: "\<exists>Q2 R2. compute_QR_decomposition exact [Fin_vec [3, 4], Fin_vec [3, 4]]
        (Fin_Matrix ?F0) (Fin (1 / 100)) = Inr (map Fin_vec Q2, Fin_Matrix R2) \<and>
      Q2 ! 1 = replicate 2 0 \<and> get R2 1 1 = Inr 1 \<and> get R2 0 1 = Inr 0"
    by (simp only:)
  show ?thesis
    apply (rule conjI, rule fresh_2_inv_fp)
    apply (rule conjI, rule h2)
    apply (rule conjI, rule h3)
    apply (rule conjI, rule h4)
    apply (rule conjI, rule a)
    apply (rule conjI, rule fresh_3_inv_fp)
    apply (rule conjI, rule k2)
    apply (rule conjI, rule k3)
    apply (rule conjI, rule k4)
    apply (rule conjI, rule k5)
    apply (rule conjI, rule a3)
    apply (rule conjI, rule fresh_2_inv)
    apply (rule conjI, rule h6(3))
    apply (rule b)
    done
qed

lemma Fin_vec_inj: "Fin_vec x = Fin_vec y \<longleftrightarrow> x = y"
  by (simp add: Fin_vec_def inj_map_eq_map inj_def)

lemma map_Fin_vec_inj: "map Fin_vec Q = map Fin_vec Q' \<longleftrightarrow> Q = Q'"
  by (rule inj_map_eq_map) (simp add: inj_def Fin_vec_inj)

lemma Fin_Matrix_inj: "Fin_Matrix A = Fin_Matrix B \<longleftrightarrow> A = B"
  by (cases A, cases B) (simp add: Fin_Matrix_def inj_map_eq_map inj_def)

theorem compute_QR_decomposition_orthonormal_witness:
  "Matrix_inv \<lparr>M = 2, data = [0, 0, 0, 0 :: real]\<rparr> \<and>
   get \<lparr>M = 2, data = [0, 0, 0, 0 :: real]\<rparr> 1 0 = Inr 0 \<and>
   foldE (qr_column exact (Fin (1 / 100))) [0..<0]
       (map Fin_vec [[3, 4], [0, 5]], Fin_Matrix \<lparr>M = 2, data = [0, 0, 0, 0]\<rparr>) =
     Inr (map Fin_vec [[3, 4], [0, 5]], Fin_Matrix \<lparr>M = 2, data = [0, 0, 0, 0]\<rparr>) \<and>
   column_kept exact (Fin (1 / 100)) 0
     (map Fin_vec [[3, 4], [0, 5]], Fin_Matrix \<lparr>M = 2, data = [0, 0, 0, 0]\<rparr>) \<and>
   foldE (qr_column exact (Fin (1 / 100))) [0..<1]
       (map Fin_vec [[3, 4], [0, 5]], Fin_Matrix \<lparr>M = 2, data = [0, 0, 0, 0]\<rparr>) =
     Inr (map Fin_vec [[3 / 5, 4 / 5], [0, 5]], Fin_Matrix \<lparr>M = 2, data = [5, 0, 0, 0]\<rparr>) \<and>
   column_kept exact (Fin (1 / 100)) 1
     (map Fin_vec [[3 / 5, 4 / 5], [0, 5]], Fin_Matrix \<lparr>M = 2, data = [5, 0, 0, 0]\<rparr>) \<and>
   compute_QR_decomposition exact (map Fin_vec [[3, 4], [0, 5]])
       (Fin_Matrix \<lparr>M = 2, data = [0, 0, 0, 0]\<rparr>) (Fin (1 / 100)) =
     Inr (map Fin_vec [[3 / 5, 4 / 5], [- 4 / 5, 3 / 5]],
          Fin_Matrix \<lparr>M = 2, data = [5, 4, 0, 3]\<rparr>) \<and>
   dot [3 / 5, 4 / 5] [3 / 5, 4 / 5] = 1 \<and>
   dot [3 / 5, 4 / 5] [- 4 / 5, 3 / 5] = 0 \<and>
   dot [- 4 / 5, 3 / 5] [- 4 / 5, 3 / 5] = 1 \<and>
   get \<lparr>M = 2, data = [5, 4, 0, 3 :: real]\<rparr> 1 0 = Inr 0 \<and>
   get \<lparr>M = 2, data = [5, 4, 0, 3 :: real]\<rparr> 0 0 = Inr 5 \<and>
   get \<lparr>M = 2, data = [5, 4, 0, 3 :: real]\<rparr> 0 1 = Inr 4 \<and>
   get \<lparr>M = 2, data = [5, 4, 0, 3 :: real]\<rparr> 1 1 = Inr 3 \<and>
   [5 * (3 / 5), 5 * (4 / 5)] = [3, 4 :: real] \<and>
   [4 * (3 / 5) + 3 * (- 4 / 5), 4 * (4 / 5) + 3 * (3 / 5)] = [0, 5 :: real]"
proof -
  let ?R0 = "\<lparr>M = 2, data = [0, 0, 0, 0 :: real]\<rparr>"
  let ?Q = "[[3, 4], [0, 5 :: real]]"
  let ?Q1 = "[[3 / 5, 4 / 5], [0, 5 :: real]]"
  let ?R1 = "\<lparr>M = 2, data = [5, 0, 0, 0 :: real]\<rparr>"
  let ?Q' = "[[3 / 5, 4 / 5], [- 4 / 5, 3 / 5 :: real]]"
  let ?R' = "\<lparr>M = 2, data = [5, 4, 0, 3 :: real]\<rparr>"
  let ?e = "Fin (1 / 100)"
  note ev = qr_eval exact_def Fin_vec_def Fin_Matrix_def column_kept_def
  have h1: "length ?Q \<le> M ?R0" "\<forall>k<length ?Q. length (?Q ! k) = 2"
    by (simp_all add: nth_Cons')
  have h2: "\<forall>i<length ?Q. \<forall>j<i. get ?R0 i j = Inr 0"
    by (simp add: get_def read_at_def flat_index_def All_less_Suc nth_Cons')
  have g0: "get ?R0 1 0 = Inr 0"
    by (simp add: get_def read_at_def flat_index_def)
  have p0: "foldE (qr_column exact ?e) [0..<0] (map Fin_vec ?Q, Fin_Matrix ?R0) =
      Inr (map Fin_vec ?Q, Fin_Matrix ?R0)"
    by simp
  have k0: "column_kept exact ?e 0 (map Fin_vec ?Q, Fin_Matrix ?R0)"
    by (simp add: ev)
  have p1: "foldE (qr_column exact ?e) [0..<1] (map Fin_vec ?Q, Fin_Matrix ?R0) =
      Inr (map Fin_vec ?Q1, Fin_Matrix ?R1)"
    by (simp add: ev)
  have k1: "column_kept exact ?e 1 (map Fin_vec ?Q1, Fin_Matrix ?R1)"
    by (simp add: ev)
  have h3: "\<forall>i<length ?Q. \<exists>s. foldE (qr_column exact ?e) [0..<i]
      (map Fin_vec ?Q, Fin_Matrix ?R0) = Inr s \<and> column_kept exact ?e i s"
    using p0 k0 p1 k1 by (simp add: All_less_Suc)
  have run: "compute_QR_decomposition exact (map Fin_vec ?Q) (Fin_Matrix ?R0) ?e =
      Inr (map Fin_vec ?Q', Fin_Matrix ?R')"
    by (simp add: ev)
  from compute_QR_decomposition_orthonormal [OF fresh_2_inv h1 h2 h3]
  obtain Q2 R2 where res:
    "compute_QR_decomposition exact (map Fin_vec ?Q) (Fin_Matrix ?R0) ?e =
       Inr (map Fin_vec Q2, Fin_Matrix R2)"
    "\<forall>i<length ?Q. \<forall>j<length ?Q. dot (Q2 ! i) (Q2 ! j) = (if i = j then 1 else 0)"
    "\<forall>i<length ?Q. \<forall>j<i. get R2 i j = Inr 0"
    by (elim exE conjE) (rule that)
  have "map Fin_vec ?Q' = map Fin_vec Q2 \<and> Fin_Matrix ?R' = Fin_Matrix R2"
    using res(1) [unfolded run] by (simp only: sum.inject prod.inject)
  then have eq: "Q2 = ?Q'" "R2 = ?R'"
    by (auto simp only: map_Fin_vec_inj Fin_Matrix_inj)
  note on = res(2) [unfolded eq]
  note low = res(3) [unfolded eq]
  have c1: "dot [3 / 5, 4 / 5] [3 / 5, 4 / 5] = 1" "dot [3 / 5, 4 / 5] [- 4 / 5, 3 / 5] = 0"
    "dot [- 4 / 5, 3 / 5] [- 4 / 5, 3 / 5] = 1"
    using on [rule_format, of 0 0] on [rule_format, of 0 1] on [rule_format, of 1 1] by simp_all
  have c2: "get ?R' 1 0 = Inr 0" using low [rule_format, of 1 0] by simp
  have c3: "get ?R' 0 0 = Inr 5" "get ?R' 0 1 = Inr 4" "get ?R' 1 1 = Inr 3"
    by (simp_all add: get_def read_at_def flat_index_def)
  have c4: "[5 * (3 / 5), 5 * (4 / 5)] = [3, 4 :: real]"
    "[4 * (3 / 5) + 3 * (- 4 / 5), 4 * (4 / 5) + 3 * (3 / 5)] = [0, 5 :: real]"
    by simp_all
  show ?thesis
    apply (rule conjI, rule fresh_2_inv)
    apply (rule conjI, rule g0)
    apply (rule conjI, rule p0)
    apply (rule conjI, rule k0)
    apply (rule conjI, rule p1)
    apply (rule conjI, rule k1)
    apply (rule conjI, rule run)
    apply (rule conjI, rule c1(1))
    apply (rule conjI, rule c1(2))
    apply (rule conjI, rule c1(3))
    apply (rule conjI, rule c2)
    apply (rule conjI, rule c3(1))
    apply (rule conjI, rule c3(2))
    apply (rule conjI, rule c3(3))
    apply (rule conjI, rule c4(1))
    apply (rule c4(2))
    done
qed

section \<open>Back-substitution on \<open>number\<close>\<close>

lemma read_at_Fin_vec:
  "read_at (Fin_vec xs) i = (case read_at xs i of Inl e \<Rightarrow> Inl e | Inr v \<Rightarrow> Inr (Fin v))"
  by (simp add: read_at_def Fin_vec_def)

lemma read_at_map_Fin_vec:
  "read_at (map Fin_vec xs) i =
     (case read_at xs i of Inl e \<Rightarrow> Inl e | Inr v \<Rightarrow> Inr (Fin_vec v))"
  by (simp add: read_at_def)

lemma Fin_vec_update: "(Fin_vec xs)[i := Fin v] = Fin_vec (xs[i := v])"
  by (simp add: Fin_vec_def map_update)

lemma subtract_row_sim:
  assumes "subtract_row R dst i j val = Inr val'" "j < length dst"
  shows "subtract_row_fp exact (Fin_Matrix R) (Fin_vec dst) i j (Fin val) = Inr (Fin val')"
  using assms
  by (auto simp: subtract_row_def subtract_row_fp_def get_Fin minus_fp_def exact_def nth_Fin_vec
      split: sum.splits)

lemma solve_row_sim:
  assumes "solve_row R rhs n i dst = Inr dst'" "n \<le> length dst"
  shows "solve_row_fp exact (Fin_Matrix R) (Fin_vec rhs) n i (Fin_vec dst) = Inr (Fin_vec dst') \<and>
         length dst' = length dst"
proof -
  from assms(1) obtain rhs_i val m_ii where r: "read_at rhs i = Inr rhs_i"
    and f: "foldE (subtract_row R dst i) [i + 1..<n] rhs_i = Inr val"
    and g: "get R i i = Inr m_ii" and nz: "m_ii \<noteq> 0" and d: "dst' = dst[i := val / m_ii]"
    by (auto simp: solve_row_def split: sum.splits if_splits)
  have "foldE (subtract_row_fp exact (Fin_Matrix R) (Fin_vec dst) i) [i + 1..<n] (Fin rhs_i) =
      Inr (Fin val) \<and> True"
    using f
  proof (rule foldE_sim [where I = "\<lambda>t. True"])
    fix x t t'
    assume "x \<in> set [i + 1..<n]" "subtract_row R dst i x t = Inr t'"
    then show "subtract_row_fp exact (Fin_Matrix R) (Fin_vec dst) i x (Fin t) = Inr (Fin t') \<and> True"
      using subtract_row_sim [of R dst i x t t'] assms(2) by simp
  qed simp
  then show ?thesis
    using r g nz d
    by (simp add: solve_row_fp_def read_at_Fin_vec get_Fin exact_def Fin_vec_update)
qed

lemma backward_substitution_sim:
  assumes "backward_substitution R dst rhs = Inr x"
  shows "backward_substitution_fp exact (Fin_Matrix R) (Fin_vec dst) (Fin_vec rhs) =
           Inr (Fin_vec x)"
proof -
  let ?n = "length dst"
  have "foldE (solve_row_fp exact (Fin_Matrix R) (Fin_vec rhs) ?n) (rev [0..<?n]) (Fin_vec dst) =
      Inr (Fin_vec x) \<and> length x = ?n"
    using assms [unfolded backward_substitution_def Let_def]
  proof (rule foldE_sim [where I = "\<lambda>t. length t = ?n"])
    fix i t t'
    assume "length t = ?n" "solve_row R rhs ?n i t = Inr t'"
    then show "solve_row_fp exact (Fin_Matrix R) (Fin_vec rhs) ?n i (Fin_vec t) =
        Inr (Fin_vec t') \<and> length t' = ?n"
      using solve_row_sim [of R rhs ?n i t t'] by simp
  qed simp
  then show ?thesis by (simp add: backward_substitution_fp_def length_Fin_vec)
qed

lemma subtract_row_multiple_rhs_sim:
  assumes "subtract_row_multiple_rhs R dst i j val = Inr val'" "j < length dst"
  shows "subtract_row_multiple_rhs_fp exact (Fin_Matrix R) (map Fin_vec dst) i j (Fin_vec val) =
           Inr (Fin_vec val')"
  using assms
  by (auto simp: subtract_row_multiple_rhs_def subtract_row_multiple_rhs_fp_def get_Fin
      add_fp_exact split: sum.splits)

lemma solve_row_multiple_rhs_sim:
  assumes "solve_row_multiple_rhs R rhs n i dst = Inr dst'" "n \<le> length dst"
  shows "solve_row_multiple_rhs_fp exact (Fin_Matrix R) (map Fin_vec rhs) n i (map Fin_vec dst) =
           Inr (map Fin_vec dst') \<and> length dst' = length dst"
proof -
  from assms(1) obtain rhs_i val m_ii where r: "read_at rhs i = Inr rhs_i"
    and f: "foldE (subtract_row_multiple_rhs R dst i) [i + 1..<n] rhs_i = Inr val"
    and g: "get R i i = Inr m_ii" and nz: "m_ii \<noteq> 0"
    and d: "dst' = dst[i := equ (1 / m_ii) val (dst ! i)]"
    by (auto simp: solve_row_multiple_rhs_def split: sum.splits if_splits)
  have "foldE (subtract_row_multiple_rhs_fp exact (Fin_Matrix R) (map Fin_vec dst) i) [i + 1..<n]
      (Fin_vec rhs_i) = Inr (Fin_vec val) \<and> True"
    using f
  proof (rule foldE_sim [where I = "\<lambda>t. True"])
    fix x t t'
    assume "x \<in> set [i + 1..<n]" "subtract_row_multiple_rhs R dst i x t = Inr t'"
    then show "subtract_row_multiple_rhs_fp exact (Fin_Matrix R) (map Fin_vec dst) i x (Fin_vec t) =
        Inr (Fin_vec t') \<and> True"
      using subtract_row_multiple_rhs_sim [of R dst i x t t'] assms(2) by simp
  qed simp
  moreover have "equ_fp exact (Fin (1 / m_ii)) (Fin_vec val) (map Fin_vec dst ! i) =
      Fin_vec (equ (1 / m_ii) val (dst ! i))"
    by (rule equ_fp_exact)
  ultimately show ?thesis
    using r g nz d
    by (simp add: solve_row_multiple_rhs_fp_def read_at_map_Fin_vec get_Fin exact_def map_update)
qed

lemma backward_substitution_multiple_rhs_sim:
  assumes "backward_substitution_multiple_rhs R dst rhs = Inr X"
  shows "backward_substitution_multiple_rhs_fp exact (Fin_Matrix R) (map Fin_vec dst)
           (map Fin_vec rhs) = Inr (map Fin_vec X)"
proof -
  let ?n = "length dst"
  have "foldE (solve_row_multiple_rhs_fp exact (Fin_Matrix R) (map Fin_vec rhs) ?n) (rev [0..<?n])
      (map Fin_vec dst) = Inr (map Fin_vec X) \<and> length X = ?n"
    using assms [unfolded backward_substitution_multiple_rhs_def Let_def]
  proof (rule foldE_sim [where I = "\<lambda>t. length t = ?n"])
    fix i t t'
    assume "length t = ?n" "solve_row_multiple_rhs R rhs ?n i t = Inr t'"
    then show "solve_row_multiple_rhs_fp exact (Fin_Matrix R) (map Fin_vec rhs) ?n i
        (map Fin_vec t) = Inr (map Fin_vec t') \<and> length t' = ?n"
      using solve_row_multiple_rhs_sim [of R rhs ?n i t t'] by simp
  qed simp
  then show ?thesis by (simp add: backward_substitution_multiple_rhs_fp_def)
qed

text \<open>
  Claim C7, as amended. In exact arithmetic: let \<open>R\<close> hold the finite matrix \<open>a\<close> with a
  non-zero diagonal and let the entries of \<open>rhs\<close> be finite field vectors of dimension
  \<open>d\<close>. Then \<open>backward_substitution_multiple_rhs\<close> returns some finite \<open>X\<close>, and for every
  component \<open>c < d\<close> the scalar \<open>backward_substitution\<close> on the \<open>c\<close>-th components of
  \<open>rhs\<close> returns the \<open>c\<close>-th components of \<open>X\<close>.
\<close>

theorem backward_substitution_variants_agree:
  assumes "length dst = n" and "length dsts = n" and "length rhs = n"
    and "\<forall>i<n. \<forall>j<n. get R i j = Inr (a i j)"
    and "\<forall>i<n. a i i \<noteq> 0"
    and "\<forall>i<n. length (rhs ! i) = d"
    and "c < d"
  shows "\<exists>X. backward_substitution_multiple_rhs_fp exact (Fin_Matrix R) (map Fin_vec dst)
               (map Fin_vec rhs) = Inr (map Fin_vec X) \<and> length X = n \<and>
             backward_substitution_fp exact (Fin_Matrix R) (Fin_vec dsts)
               (Fin_vec (map (\<lambda>v. v ! c) rhs)) = Inr (Fin_vec (map (\<lambda>v. v ! c) X))"
proof -
  from variants_agree_exact [OF assms]
  obtain X where X: "backward_substitution_multiple_rhs R dst rhs = Inr X" "length X = n"
    "backward_substitution R dsts (map (\<lambda>v. v ! c) rhs) = Inr (map (\<lambda>v. v ! c) X)"
    by blast
  show ?thesis
    using backward_substitution_multiple_rhs_sim [OF X(1)] backward_substitution_sim [OF X(3)] X(2)
    by blast
qed

lemma round_double_3_10: "round_double (3 / 10) = Fin (5404319552844595 / 2 ^ 54)"
  by (simp add: round_double_eval)

lemma round_double_1_10: "round_double (1 / 10) = Fin (3602879701896397 / 2 ^ 55)"
  by (simp add: round_double_eval)

lemma round_double_3_tenths:
  "round_double (3602879701896397 / 2 ^ 55 * 3) = Fin (5404319552844596 / 2 ^ 54)"
  by (simp add: round_double_eval)

text \<open>
  Claim C7 as stated has no restriction to exact arithmetic. The scalar routine divides
  by \<open>R[i][i]\<close>; the other multiplies by the rounded quotient \<open>1.0 / R[i][i]\<close>. In
  binary64, for \<open>R = [[10]]\<close> and the right-hand side 3 the scalar routine returns the
  number nearest to \<open>3 / 10\<close> and the other routine its successor.
\<close>

theorem backward_substitution_variants_differ:
  "backward_substitution_fp round_double \<lparr>M = 1, data = [Fin 10]\<rparr> [Fin 0] [Fin 3] =
     Inr [Fin (5404319552844595 / 2 ^ 54)] \<and>
   backward_substitution_multiple_rhs_fp round_double \<lparr>M = 1, data = [Fin 10]\<rparr> [[Fin 0]] [[Fin 3]] =
     Inr [[Fin (5404319552844596 / 2 ^ 54)]] \<and>
   [Fin (5404319552844595 / 2 ^ 54)] \<noteq> map (\<lambda>v. v ! 0) [[Fin (5404319552844596 / 2 ^ 54)]]"
proof -
  define q :: real where "q = 3602879701896397 / 2 ^ 55"
  have q: "round_double (1 / 10) = Fin q" unfolding q_def by (rule round_double_1_10)
  have q3: "round_double (q * 3) = Fin (5404319552844596 / 2 ^ 54)"
    unfolding q_def by (rule round_double_3_tenths)
  have a: "backward_substitution_fp round_double \<lparr>M = 1, data = [Fin 10]\<rparr> [Fin 0] [Fin 3] =
      Inr [Fin (5404319552844595 / 2 ^ 54)]"
    by (simp add: backward_substitution_fp_def solve_row_fp_def read_at_def get_def
        flat_index_def round_double_3_10)
  have b: "backward_substitution_multiple_rhs_fp round_double \<lparr>M = 1, data = [Fin 10]\<rparr>
      [[Fin 0]] [[Fin 3]] = Inr [[Fin (5404319552844596 / 2 ^ 54)]]"
    by (simp add: backward_substitution_multiple_rhs_fp_def solve_row_multiple_rhs_fp_def
        read_at_def get_def flat_index_def equ_fp_def q q3)
  show ?thesis
    apply (rule conjI, rule a)
    apply (rule conjI, rule b)
    apply simp
    done
qed

theorem backward_substitution_variants_agree_witness:
  "get \<lparr>M = 2, data = [2, 1, 0, 4 :: real]\<rparr> 0 0 = Inr 2 \<and>
   get \<lparr>M = 2, data = [2, 1, 0, 4 :: real]\<rparr> 0 1 = Inr 1 \<and>
   get \<lparr>M = 2, data = [2, 1, 0, 4 :: real]\<rparr> 1 0 = Inr 0 \<and>
   get \<lparr>M = 2, data = [2, 1, 0, 4 :: real]\<rparr> 1 1 = Inr 4 \<and>
   (\<exists>X. backward_substitution_multiple_rhs_fp exact (Fin_Matrix \<lparr>M = 2, data = [2, 1, 0, 4]\<rparr>)
           (map Fin_vec [[0, 0], [0, 0]]) (map Fin_vec [[4, 2], [8, 4]]) = Inr (map Fin_vec X) \<and>
         length X = 2 \<and>
         backward_substitution_fp exact (Fin_Matrix \<lparr>M = 2, data = [2, 1, 0, 4]\<rparr>)
           (Fin_vec [0, 0]) (Fin_vec [2, 4]) = Inr (Fin_vec (map (\<lambda>v. v ! 1) X))) \<and>
   backward_substitution_multiple_rhs_fp exact (Fin_Matrix \<lparr>M = 2, data = [2, 1, 0, 4]\<rparr>)
       (map Fin_vec [[0, 0], [0, 0]]) (map Fin_vec [[4, 2], [8, 4]]) =
     Inr (map Fin_vec [[1, 1 / 2], [2, 1]]) \<and>
   backward_substitution_fp exact (Fin_Matrix \<lparr>M = 2, data = [2, 1, 0, 4]\<rparr>)
       (Fin_vec [0, 0]) (Fin_vec [2, 4]) = Inr (Fin_vec [1 / 2, 1])"
proof -
  let ?a = "\<lambda>i j. [2, 1, 0, 4 :: real] ! (i * 2 + j)"
  have d: "\<forall>i<2. length ([[4, 2], [8, 4 :: real]] ! i) = 2"
    by (auto simp: less_2_cases_iff)
  have rev2: "rev [0..<2] = [1, 0]" by (simp add: upt_0_2)
  from backward_substitution_variants_agree
    [of "[[0, 0], [0, 0]]" 2 "[0, 0]" "[[4, 2], [8, 4]]" "\<lparr>M = 2, data = [2, 1, 0, 4]\<rparr>" ?a 2 1,
      OF _ _ _ example_entries example_diagonal d]
  have a: "\<exists>X. backward_substitution_multiple_rhs_fp exact
           (Fin_Matrix \<lparr>M = 2, data = [2, 1, 0, 4]\<rparr>)
           (map Fin_vec [[0, 0], [0, 0]]) (map Fin_vec [[4, 2], [8, 4]]) = Inr (map Fin_vec X) \<and>
         length X = 2 \<and>
         backward_substitution_fp exact (Fin_Matrix \<lparr>M = 2, data = [2, 1, 0, 4]\<rparr>)
           (Fin_vec [0, 0]) (Fin_vec [2, 4]) = Inr (Fin_vec (map (\<lambda>v. v ! 1) X))"
    by simp
  have g: "get \<lparr>M = 2, data = [2, 1, 0, 4 :: real]\<rparr> 0 0 = Inr 2"
    "get \<lparr>M = 2, data = [2, 1, 0, 4 :: real]\<rparr> 0 1 = Inr 1"
    "get \<lparr>M = 2, data = [2, 1, 0, 4 :: real]\<rparr> 1 0 = Inr 0"
    "get \<lparr>M = 2, data = [2, 1, 0, 4 :: real]\<rparr> 1 1 = Inr 4"
    by (simp_all add: get_def read_at_def flat_index_def)
  have b: "backward_substitution_multiple_rhs_fp exact (Fin_Matrix \<lparr>M = 2, data = [2, 1, 0, 4]\<rparr>)
       (map Fin_vec [[0, 0], [0, 0]]) (map Fin_vec [[4, 2], [8, 4]]) =
     Inr (map Fin_vec [[1, 1 / 2], [2, 1]])"
    by (simp add: backward_substitution_multiple_rhs_fp_def solve_row_multiple_rhs_fp_def
        subtract_row_multiple_rhs_fp_def read_at_def get_def flat_index_def equ_fp_def add_fp_def
        Fin_vec_def Fin_Matrix_def exact_def rev2)
  have c: "backward_substitution_fp exact (Fin_Matrix \<lparr>M = 2, data = [2, 1, 0, 4]\<rparr>)
       (Fin_vec [0, 0]) (Fin_vec [2, 4]) = Inr (Fin_vec [1 / 2, 1])"
    by (simp add: backward_substitution_fp_def solve_row_fp_def subtract_row_fp_def read_at_def
        get_def flat_index_def minus_fp_def Fin_vec_def Fin_Matrix_def exact_def rev2)
  show ?thesis
    apply (rule conjI, rule g(1))
    apply (rule conjI, rule g(2))
    apply (rule conjI, rule g(3))
    apply (rule conjI, rule g(4))
    apply (rule conjI, rule a)
    apply (rule conjI, rule b)
    apply (rule c)
    done
qed

end
